theory Spec2Isabelle
  imports Complex_Main "HOL-Library.Word" "HOL-Library.Signed_Division"
begin

unbundle bit_operations_syntax

section \<open>Bytes, typed arrays and errors\<close>

text \<open>
  A \<^verbatim>\<open>Uint8Array\<close> is a list of bytes. Every \<^verbatim>\<open>throw new Error(...)\<close> of
  \<^verbatim>\<open>encrypt.ts\<close> and every rejection of a platform call is a value of \<open>error\<close>:
  \<^item> \<open>InvalidParameter\<close>: \<^verbatim>\<open>'invalid iv length'\<close> (the constructor);
  \<^item> \<open>DataError\<close>: \<^verbatim>\<open>subtle.importKey\<close> rejects a raw AES key that is not 128, 192 or 256 bits;
  \<^item> \<open>AlignmentError\<close>: \<^verbatim>\<open>'All but final block must be multiple of block size (16)'\<close> and
    \<^verbatim>\<open>'bufferSize must be a multiple of AES-CBC-256 blockSize (16)'\<close>;
  \<^item> \<open>IntegrityError\<close>: \<^verbatim>\<open>'Unexpected AES output length'\<close>;
  \<^item> \<open>LengthOverflow\<close>: \<^verbatim>\<open>'plaintext length too large'\<close>;
  \<^item> \<open>RangeError\<close>: a typed-array \<^verbatim>\<open>set\<close> out of range, or \<^verbatim>\<open>new Uint8Array(n)\<close> with \<open>n < 0\<close>;
  \<^item> \<open>SourceFailure\<close>, \<open>SinkFailure\<close>: the source's iterator or the sink's writer rejects.
\<close>

type_synonym byte = "8 word"
type_synonym bytes = "byte list"

datatype error =
    InvalidParameter
  | DataError
  | AlignmentError
  | IntegrityError
  | LengthOverflow
  | RangeError
  | SourceFailure
  | SinkFailure

text \<open>
  \<^verbatim>\<open>TypedArray.prototype.subarray(begin, end)\<close>: a negative index counts from the end, and
  both indices are clamped to the array.
\<close>

definition relative_index :: "int \<Rightarrow> nat \<Rightarrow> nat" where
  "relative_index i len = (if i < 0 then nat (max (int len + i) 0) else min (nat i) len)"

definition subarray :: "bytes \<Rightarrow> int \<Rightarrow> int \<Rightarrow> bytes" where
  "subarray a start stop =
     (let b = relative_index start (length a); e = relative_index stop (length a)
      in take (e - b) (drop b a))"

definition subarray_from :: "bytes \<Rightarrow> int \<Rightarrow> bytes" where
  "subarray_from a start = drop (relative_index start (length a)) a"

text \<open>
  \<^verbatim>\<open>target.set(src, off)\<close> overwrites \<open>length src\<close> bytes of \<open>target\<close> from index \<open>off\<close>
  and throws a RangeError when they do not fit.
\<close>

definition typed_set :: "bytes \<Rightarrow> bytes \<Rightarrow> int \<Rightarrow> error + bytes" where
  "typed_set target src off =
     (if off < 0 \<or> off + int (length src) > int (length target) then Inl RangeError
      else Inr (take (nat off) target @ src @ drop (nat off + length src) target))"

section \<open>The platform: one-shot AES-CBC, HMAC, the sink\<close>

text \<open>
  The two cryptographic primitives are calls into the platform
  (\<^verbatim>\<open>subtle.encrypt({name: 'AES-CBC', iv}, key, data)\<close> and \<^verbatim>\<open>crypto.createHmac('sha256', key)\<close>);
  they are parameters of the model. \<open>aes_cbc_encrypt P key iv0 data\<close> is the one-shot
  ciphertext, \<open>hmac_sha256 P key msg\<close> the tag of a whole message.
\<close>

record platform =
  aes_cbc_encrypt :: "bytes \<Rightarrow> bytes \<Rightarrow> bytes \<Rightarrow> bytes"
  hmac_sha256 :: "bytes \<Rightarrow> bytes \<Rightarrow> bytes"

text \<open>
  A \<^verbatim>\<open>crypto.Hmac\<close> object: its key and the bytes fed to it by \<^verbatim>\<open>update\<close> so far;
  \<^verbatim>\<open>digest\<close> is the tag of their concatenation.
\<close>

record Hmac =
  hmac_key :: bytes
  hmac_data :: bytes

definition createHmac :: "bytes \<Rightarrow> Hmac" where
  "createHmac k = \<lparr>hmac_key = k, hmac_data = []\<rparr>"

definition update :: "Hmac \<Rightarrow> bytes \<Rightarrow> Hmac" where
  "update h b = h\<lparr>hmac_data := hmac_data h @ b\<rparr>"

definition digest :: "platform \<Rightarrow> Hmac \<Rightarrow> bytes" where
  "digest P h = hmac_sha256 P (hmac_key h) (hmac_data h)"

text \<open>
  \<^verbatim>\<open>subtle.importKey('raw', aesKey, 'AES-CBC', false, ['encrypt'])\<close>: the key handle is the
  raw key; the import rejects any other length than 16, 24 or 32 bytes.
\<close>

definition importKey :: "bytes \<Rightarrow> error + bytes" where
  "importKey raw = (if length raw \<in> {16, 24, 32} then Inr raw else Inl DataError)"

text \<open>
  The sink's writer (\<^verbatim>\<open>WritableStreamDefaultWriter\<close>). \<open>written\<close> are the chunks it has
  accepted, in order, each with the bytes it held when it was written; \<open>closes\<close> counts the
  calls of \<^verbatim>\<open>close\<close>. The sink may reject a write (\<open>accepts\<close> decides, from what was
  written so far and the new chunk); it is errored from then on, and an errored sink rejects
  every write and its close.
\<close>

record Writer =
  written :: "bytes list"
  closes :: nat
  errored :: bool
  accepts :: "bytes list \<Rightarrow> bytes \<Rightarrow> bool"

definition writer_write :: "Writer \<Rightarrow> bytes \<Rightarrow> error option \<times> Writer" where
  "writer_write w chunk =
     (if errored w \<or> \<not> accepts w (written w) chunk then (Some SinkFailure, w\<lparr>errored := True\<rparr>)
      else (None, w\<lparr>written := written w @ [chunk]\<rparr>))"

definition writer_close :: "Writer \<Rightarrow> error option \<times> Writer" where
  "writer_close w = (if errored w then Some SinkFailure else None, w\<lparr>closes := Suc (closes w)\<rparr>)"

section \<open>Encrypter\<close>

record Encrypter =
  hmac :: Hmac
  iv :: bytes
  aesKey :: bytes

text \<open>The constructor copies the caller's IV into a fresh 16-byte array.\<close>

definition new_Encrypter :: "bytes \<Rightarrow> Hmac \<Rightarrow> bytes \<Rightarrow> error + Encrypter" where
  "new_Encrypter iv0 h k =
     (if length iv0 \<noteq> 16 then Inl InvalidParameter
      else Inr \<lparr>hmac = h, iv = iv0, aesKey = k\<rparr>)"

definition create :: "bytes \<Rightarrow> bytes \<Rightarrow> bytes \<Rightarrow> error + Encrypter" where
  "create iv0 hmacKey aesKeyBytes =
     (case importKey aesKeyBytes of
        Inl err \<Rightarrow> Inl err
      | Inr k \<Rightarrow> new_Encrypter iv0 (createHmac hmacKey) k)"

definition MAX_SAFE_INTEGER :: int where
  "MAX_SAFE_INTEGER = 2 ^ 53 - 1"

definition MAX_PLAINTEXT_LENGTH :: int where
  "MAX_PLAINTEXT_LENGTH = MAX_SAFE_INTEGER - 32 - 16 - 16"

text \<open>
  \<^verbatim>\<open>Math.ceil((plaintextLength + 1) / 16)\<close> is a quotient of numbers, not an integer
  division: the model takes the ceiling of the rational quotient.
\<close>

definition encryptedLength :: "Encrypter \<Rightarrow> int \<Rightarrow> error + int" where
  "encryptedLength this plaintextLength =
     (if plaintextLength > MAX_PLAINTEXT_LENGTH then Inl LengthOverflow
      else let numBlocks = \<lceil>(of_int (plaintextLength + 1) :: rat) / 16\<rceil>
           in Inr (int (length (iv this)) + numBlocks * 16 + 32))"

text \<open>
  The methods return the error thrown, if any, with the encrypter and the writer as the call
  left them: a throw does not undo what the method did before it.
\<close>

definition init :: "Encrypter \<Rightarrow> Writer \<Rightarrow> error option \<times> Encrypter \<times> Writer" where
  "init this dst =
     (case writer_write dst (iv this) of
        (Some err, dst') \<Rightarrow> (Some err, this, dst')
      | (None, dst') \<Rightarrow> (None, this\<lparr>hmac := update (hmac this) (iv this)\<rparr>, dst'))"

definition encrypt ::
  "platform \<Rightarrow> Encrypter \<Rightarrow> Writer \<Rightarrow> bytes \<Rightarrow> error option \<times> Encrypter \<times> Writer" where
  "encrypt P this dst plaintext =
     (if length plaintext mod 16 \<noteq> 0 then (Some AlignmentError, this, dst)
      else
        let encrypted = aes_cbc_encrypt P (aesKey this) (iv this) plaintext in
        if length encrypted \<noteq> length plaintext + 16 then (Some IntegrityError, this, dst)
        else
          let encrypted = subarray encrypted 0 (int (length encrypted) - 16) in
          case typed_set (iv this) (subarray_from encrypted (int (length encrypted) - 16)) 0 of
            Inl err \<Rightarrow> (Some err, this, dst)
          | Inr iv' \<Rightarrow>
              let this = this\<lparr>iv := iv'\<rparr> in
              (case writer_write dst encrypted of
                 (Some err, dst') \<Rightarrow> (Some err, this, dst')
               | (None, dst') \<Rightarrow> (None, this\<lparr>hmac := update (hmac this) encrypted\<rparr>, dst')))"

definition finish ::
  "platform \<Rightarrow> Encrypter \<Rightarrow> Writer \<Rightarrow> bytes \<Rightarrow> error option \<times> Encrypter \<times> Writer" where
  "finish P this dst plaintext =
     (let encrypted = aes_cbc_encrypt P (aesKey this) (iv this) plaintext in
      case writer_write dst encrypted of
        (Some err, dst') \<Rightarrow> (Some err, this, dst')
      | (None, dst') \<Rightarrow>
          let this = this\<lparr>hmac := update (hmac this) encrypted\<rparr> in
          (case writer_write dst' (digest P (hmac this)) of
             (r, dst'') \<Rightarrow> (r, this, dst'')))"

section \<open>streamEncrypt\<close>

text \<open>
  The source is the sequence of results its async iterator yields: a chunk, or a rejection,
  which ends the iteration. The state of the loops is the encrypter, the writer, the staging
  buffer \<open>plaintext\<close> and the fill \<open>offset\<close>.
\<close>

type_synonym source = "(error + bytes) list"

record pump =
  encrypter :: Encrypter
  writer :: Writer
  plaintext :: bytes
  offset :: int

text \<open>
  The \<^verbatim>\<open>do { ... } while (chunk !== null)\<close> loop over one source chunk. It need not end on
  every state (a staging buffer of capacity 0 never takes a byte), so it returns an option:
  \<open>None\<close> is a loop that runs forever.
\<close>

partial_function (option) write_chunk ::
  "platform \<Rightarrow> pump \<Rightarrow> bytes \<Rightarrow> (error option \<times> pump) option" where
  "write_chunk P st chunk =
     (let amtToCopy = min (int (length (plaintext st)) - offset st) (int (length chunk)) in
      case typed_set (plaintext st) (subarray chunk 0 amtToCopy) (offset st) of
        Inl err \<Rightarrow> Some (Some err, st)
      | Inr buf \<Rightarrow>
          let st = st\<lparr>plaintext := buf, offset := offset st + amtToCopy\<rparr> in
          (case (if offset st = int (length (plaintext st))
                 then (case encrypt P (encrypter st) (writer st) (plaintext st) of
                         (Some err, e, w) \<Rightarrow> (Some err, st\<lparr>encrypter := e, writer := w\<rparr>)
                       | (None, e, w) \<Rightarrow> (None, st\<lparr>encrypter := e, writer := w, offset := 0\<rparr>))
                 else (None, st)) of
             (Some err, st) \<Rightarrow> Some (Some err, st)
           | (None, st) \<Rightarrow>
               if amtToCopy < int (length chunk)
               then write_chunk P st (subarray_from chunk amtToCopy)
               else Some (None, st)))"

text \<open>The \<^verbatim>\<open>for await (const sourceChunk of source)\<close> loop; it returns the unread rest of the source.\<close>

fun for_await :: "platform \<Rightarrow> pump \<Rightarrow> source \<Rightarrow> (error option \<times> pump \<times> source) option" where
  "for_await P st [] = Some (None, st, [])"
| "for_await P st (Inl err # rest) = Some (Some err, st, rest)"
| "for_await P st (Inr sourceChunk # rest) =
     (case write_chunk P st sourceChunk of
        None \<Rightarrow> None
      | Some (Some err, st') \<Rightarrow> Some (Some err, st', rest)
      | Some (None, st') \<Rightarrow> for_await P st' rest)"

text \<open>The \<^verbatim>\<open>try\<close> block, entered with the default already applied to \<open>bufferSize\<close>.\<close>

definition streamEncrypt_try ::
  "platform \<Rightarrow> Encrypter \<Rightarrow> source \<Rightarrow> Writer \<Rightarrow> int \<Rightarrow>
   (error option \<times> Encrypter \<times> source \<times> Writer) option" where
  "streamEncrypt_try P e src w bufferSize =
     (case init e w of
        (Some err, e', w') \<Rightarrow> Some (Some err, e', src, w')
      | (None, e', w') \<Rightarrow>
          if bufferSize < 0 then Some (Some RangeError, e', src, w')
          else
            (case for_await P
                    \<lparr>encrypter = e', writer = w',
                     plaintext = replicate (nat bufferSize) 0, offset = 0\<rparr> src of
               None \<Rightarrow> None
             | Some (Some err, st, src') \<Rightarrow> Some (Some err, encrypter st, src', writer st)
             | Some (None, st, src') \<Rightarrow>
                 (case finish P (encrypter st) (writer st)
                         (subarray (plaintext st) 0 (offset st)) of
                    (r, e'', w'') \<Rightarrow> Some (r, e'', src', w''))))"

text \<open>
  \<open>streamEncrypt\<close>: \<open>bufferSize || 1024 * 1024\<close> (\<open>or_default\<close>) replaces an omitted argument
  and 0 by the default; \<^verbatim>\<open>%\<close> truncates towards zero (\<open>smod\<close>); the \<^verbatim>\<open>finally\<close> block closes the writer,
  and a rejected close replaces the outcome of the \<^verbatim>\<open>try\<close> block. The result is the error
  thrown, if any, the encrypter, the unread rest of the source and the writer.
\<close>

definition or_default :: "int option \<Rightarrow> int" where
  "or_default bufferSize =
     (case bufferSize of
        None \<Rightarrow> 1024 * 1024
      | Some b \<Rightarrow> if b = 0 then 1024 * 1024 else b)"

definition streamEncrypt ::
  "platform \<Rightarrow> Encrypter \<Rightarrow> source \<Rightarrow> Writer \<Rightarrow> int option \<Rightarrow>
   (error option \<times> Encrypter \<times> source \<times> Writer) option" where
  "streamEncrypt P e src dst bufferSizeArg =
     (let bufferSize = or_default bufferSizeArg in
      if bufferSize smod 16 \<noteq> 0 then Some (Some AlignmentError, e, src, dst)
      else
        (case streamEncrypt_try P e src dst bufferSize of
           None \<Rightarrow> None
         | Some (r, e', src', w) \<Rightarrow>
             (case writer_close w of
                (Some err, w') \<Rightarrow> Some (Some err, e', src', w')
              | (None, w') \<Rightarrow> Some (r, e', src', w'))))"

section \<open>The one-shot primitive: CBC with PKCS#7 padding\<close>

text \<open>
  Modelled from the spec: the platform's one-shot primitive \<^verbatim>\<open>subtle.encrypt\<close> for AES-CBC,
  which is not code of this repository. It pads to a block boundary, always adding a full
  block if the input is already aligned (PKCS#7: \<open>n\<close> bytes of value \<open>n\<close>), and encrypts
  block by block; the chaining value combined (by XOR) with a plaintext block before the
  block cipher is the previous block's ciphertext, or the IV for the first block. The block
  cipher itself (AES under a key, a function on 128-bit blocks) stays a parameter \<open>E\<close>.
\<close>

type_synonym block = "128 word"

definition block_of_bytes :: "bytes \<Rightarrow> block" where
  "block_of_bytes bs = foldl (\<lambda>acc b. push_bit 8 acc OR ucast b) 0 bs"

definition bytes_of_block :: "block \<Rightarrow> bytes" where
  "bytes_of_block w = map (\<lambda>i. ucast (drop_bit (8 * (15 - i)) w)) [0..<16]"

definition pkcs7_pad :: "bytes \<Rightarrow> bytes" where
  "pkcs7_pad data = (let n = 16 - length data mod 16 in data @ replicate n (of_nat n))"

function cbc_chain :: "(block \<Rightarrow> block) \<Rightarrow> bytes \<Rightarrow> bytes \<Rightarrow> bytes" where
  "cbc_chain F prev data =
     (if length data < 16 then []
      else let c = bytes_of_block (F (block_of_bytes (take 16 data) XOR block_of_bytes prev))
           in c @ cbc_chain F c (drop 16 data))"
  by pat_completeness auto
termination
  by (relation "measure (\<lambda>(F, prev, data). length data)") auto

definition aes_cbc :: "(bytes \<Rightarrow> block \<Rightarrow> block) \<Rightarrow> bytes \<Rightarrow> bytes \<Rightarrow> bytes \<Rightarrow> bytes" where
  "aes_cbc E k iv0 data = cbc_chain (E k) iv0 (pkcs7_pad data)"

definition webcrypto :: "(bytes \<Rightarrow> block \<Rightarrow> block) \<Rightarrow> (bytes \<Rightarrow> bytes \<Rightarrow> bytes) \<Rightarrow> platform" where
  "webcrypto E H = \<lparr>aes_cbc_encrypt = aes_cbc E, hmac_sha256 = H\<rparr>"

section \<open>Sessions and the pump, seen from outside\<close>

text \<open>
  A complete session on an encrypter: \<open>init\<close>, then \<open>encrypt\<close> on each buffer of a list, then
  \<open>finish\<close> on the tail; the first error ends it.
\<close>

fun encrypt_all ::
  "platform \<Rightarrow> Encrypter \<Rightarrow> Writer \<Rightarrow> bytes list \<Rightarrow> error option \<times> Encrypter \<times> Writer" where
  "encrypt_all P e w [] = (None, e, w)"
| "encrypt_all P e w (b # bs) =
     (case encrypt P e w b of
        (Some err, e', w') \<Rightarrow> (Some err, e', w')
      | (None, e', w') \<Rightarrow> encrypt_all P e' w' bs)"

definition session ::
  "platform \<Rightarrow> Encrypter \<Rightarrow> Writer \<Rightarrow> bytes list \<Rightarrow> bytes \<Rightarrow> error option \<times> Encrypter \<times> Writer" where
  "session P e w bufs tail =
     (case init e w of
        (Some err, e', w') \<Rightarrow> (Some err, e', w')
      | (None, e', w') \<Rightarrow>
          (case encrypt_all P e' w' bufs of
             (Some err, e'', w'') \<Rightarrow> (Some err, e'', w'')
           | (None, e'', w'') \<Rightarrow> finish P e'' w'' tail))"

text \<open>
  What the two loops of \<open>streamEncrypt\<close> do to a byte sequence \<open>xs\<close> (the bytes staged so
  far followed by the bytes still to come) with a staging buffer of capacity \<open>n\<close>: every full
  buffer is encrypted, the rest stays staged.
\<close>

function feed ::
  "platform \<Rightarrow> nat \<Rightarrow> Encrypter \<Rightarrow> Writer \<Rightarrow> bytes \<Rightarrow>
   error option \<times> Encrypter \<times> Writer \<times> bytes" where
  "feed P n e w xs =
     (if n = 0 \<or> length xs < n then (None, e, w, xs)
      else (case encrypt P e w (take n xs) of
              (Some err, e', w') \<Rightarrow> (Some err, e', w', [])
            | (None, e', w') \<Rightarrow> feed P n e' w' (drop n xs)))"
  by pat_completeness auto
termination
  by (relation "measure (\<lambda>(P, n, e, w, xs). length xs)") auto

text \<open>The chunks a source delivers before it fails or ends, and its failure if it has one.\<close>

fun delivered :: "source \<Rightarrow> bytes" where
  "delivered [] = []"
| "delivered (Inl err # rest) = []"
| "delivered (Inr c # rest) = c @ delivered rest"

fun failure :: "source \<Rightarrow> error option" where
  "failure [] = None"
| "failure (Inl err # rest) = Some err"
| "failure (Inr c # rest) = failure rest"

section \<open>Auxiliary notions for the proofs\<close>

text \<open>
  \<open>agrees n x y\<close>: the outcome \<open>x\<close> of a loop on a staging buffer of capacity \<open>n\<close> and the
  outcome \<open>y\<close> of \<open>feed\<close> are the same error, encrypter and writer, and, when there is no
  error, the bytes staged in the buffer below the offset are those \<open>feed\<close> left.
\<close>

definition agrees ::
  "nat \<Rightarrow> error option \<times> pump \<Rightarrow> error option \<times> Encrypter \<times> Writer \<times> bytes \<Rightarrow> bool" where
  "agrees n x y =
     (case (x, y) of
        ((r, st), (fr, fe, fw, fp)) \<Rightarrow>
          r = fr \<and> encrypter st = fe \<and> writer st = fw \<and>
          (fr = None \<longrightarrow>
             length (plaintext st) = n \<and> 0 \<le> offset st \<and> offset st < int n \<and>
             take (nat (offset st)) (plaintext st) = fp))"

declare feed.simps [simp del]
declare cbc_chain.simps [simp del]

text \<open>
  The \<^verbatim>\<open>try\<close> block as a function of the bytes the source delivers and of its failure.
\<close>

definition pumped ::
  "platform \<Rightarrow> Encrypter \<Rightarrow> Writer \<Rightarrow> int \<Rightarrow> bytes \<Rightarrow> error option \<Rightarrow>
   error option \<times> Encrypter \<times> Writer" where
  "pumped P e w bufferSize data fail =
     (case init e w of
        (Some err, e', w') \<Rightarrow> (Some err, e', w')
      | (None, e', w') \<Rightarrow>
          if bufferSize < 0 then (Some RangeError, e', w')
          else
            (case feed P (nat bufferSize) e' w' data of
               (Some err, e'', w'', p) \<Rightarrow> (Some err, e'', w'')
             | (None, e'', w'', p) \<Rightarrow>
                 (case fail of
                    Some err \<Rightarrow> (Some err, e'', w'')
                  | None \<Rightarrow> finish P e'' w'' p)))"

text \<open>
  The full staging buffers a byte sequence fills, in order, and the bytes that stay staged
  after them.
\<close>

function buffers :: "nat \<Rightarrow> bytes \<Rightarrow> bytes list" where
  "buffers n xs = (if n = 0 \<or> length xs < n then [] else take n xs # buffers n (drop n xs))"
  by pat_completeness auto
termination
  by (relation "measure (\<lambda>(n, xs). length xs)") auto

function staged :: "nat \<Rightarrow> bytes \<Rightarrow> bytes" where
  "staged n xs = (if n = 0 \<or> length xs < n then xs else staged n (drop n xs))"
  by pat_completeness auto
termination
  by (relation "measure (\<lambda>(n, xs). length xs)") auto

text \<open>
  \<open>extends w w'\<close>: \<open>w'\<close> has been closed as often as \<open>w\<close> and holds every chunk \<open>w\<close> holds,
  in the same order, possibly followed by more.
\<close>

definition extends :: "Writer \<Rightarrow> Writer \<Rightarrow> bool" where
  "extends w w' \<longleftrightarrow>
     closes w' = closes w \<and> take (length (written w)) (written w') = written w"

declare buffers.simps [simp del]
declare staged.simps [simp del]

text \<open>
  A concrete platform, encrypter and sink for worked examples: CBC over a stand-in block
  cipher (not AES), a stand-in 32-byte MAC, and a sink that accepts every write.
\<close>

definition demo_cipher :: "bytes \<Rightarrow> block \<Rightarrow> block" where
  "demo_cipher k b = b XOR block_of_bytes (take 16 k) + 1"

definition demo_mac :: "bytes \<Rightarrow> bytes \<Rightarrow> bytes" where
  "demo_mac k m = take 32 (m @ k @ replicate 32 0)"

definition demo_platform :: platform where
  "demo_platform = webcrypto demo_cipher demo_mac"

definition demo_encrypter :: Encrypter where
  "demo_encrypter = \<lparr>hmac = createHmac (replicate 32 1), iv = replicate 16 2, aesKey = replicate 32 3\<rparr>"

definition fresh_writer :: Writer where
  "fresh_writer = \<lparr>written = [], closes = 0, errored = False, accepts = (\<lambda>ws c. True)\<rparr>"

text \<open>
  The chaining value after the ciphertext \<open>ct\<close> has been emitted from chaining value \<open>v\<close>.
\<close>

definition last_block :: "bytes \<Rightarrow> bytes \<Rightarrow> bytes" where
  "last_block v ct = (if ct = [] then v else drop (length ct - 16) ct)"

section \<open>Arithmetic of the length formula\<close>

lemma smod_16_eq_0_iff: "(b::int) smod 16 = 0 \<longleftrightarrow> 16 dvd b"
proof -
  have "b smod 16 = sgn b * (\<bar>b\<bar> mod 16)"
    by (simp add: smod_int_alt_def)
  moreover have "sgn b * (\<bar>b\<bar> mod 16) = 0 \<longleftrightarrow> b = 0 \<or> \<bar>b\<bar> mod 16 = 0"
    by (simp add: sgn_eq_0_iff)
  moreover have "\<bar>b\<bar> mod 16 = 0 \<longleftrightarrow> 16 dvd b"
    by (simp add: mod_eq_0_iff_dvd)
  ultimately show ?thesis
    by auto
qed

lemma neg_succ_div_16: "(- (L + 1)) div 16 = - (L div 16) - (1::int)"
proof (rule int_div_pos_eq)
  have lo: "\<And>r::int. r < 16 \<Longrightarrow> 0 \<le> 15 - r"
    by simp
  have hi: "\<And>r::int. 0 \<le> r \<Longrightarrow> 15 - r < 16"
    by simp
  show "- (L + 1) = 16 * (- (L div 16) - 1) + (15 - L mod 16)"
    by (simp add: algebra_simps)
  have "L mod 16 < 16"
    by simp
  then show "0 \<le> 15 - L mod 16"
    by (rule lo)
  have "0 \<le> L mod 16"
    by simp
  then show "15 - L mod 16 < 16"
    by (rule hi)
qed

lemma ceiling_blocks: "\<lceil>(of_int (L + 1) :: rat) / 16\<rceil> = L div 16 + 1"
proof -
  have "\<lceil>(of_int (L + 1) :: rat) / of_int 16\<rceil> = - ((- (L + 1)) div 16)"
    by (simp only: ceiling_divide_eq_div)
  also have "\<dots> = L div 16 + 1"
    by (simp add: neg_succ_div_16)
  finally show ?thesis
    by simp
qed

lemma encryptedLength_value:
  "L \<le> MAX_PLAINTEXT_LENGTH \<Longrightarrow>
   encryptedLength this L = Inr (int (length (iv this)) + (L div 16 + 1) * 16 + 32)"
  unfolding encryptedLength_def ceiling_blocks by simp

lemma sixteen_div_le: "16 * (L div 16) \<le> (L::int)"
proof -
  have a: "\<And>q r::int. 16 * q + r = L \<Longrightarrow> 0 \<le> r \<Longrightarrow> 16 * q \<le> L"
    by simp
  have "0 \<le> L mod 16"
    by simp
  with mult_div_mod_eq [of 16 L] show ?thesis
    by (rule a)
qed

text \<open>
  C6. \<open>encryptedLength\<close> fails with LengthOverflow exactly when the length exceeds
  \<open>MAX_SAFE_INTEGER - 64\<close>; the test is the first thing the function does, so no formula is
  computed on a rejected length. For every length from 0 up to that bound it returns
  \<open>16 + 16 * ceil((L + 1) / 16) + 32\<close>, and every number the formula goes through (\<open>L + 1\<close>,
  the block count, the ciphertext length, the result) is an integer between 0 and
  \<open>MAX_SAFE_INTEGER\<close>: nothing is rounded.
\<close>

theorem encryptedLength_overflow_exact:
  "(encryptedLength this L = Inl LengthOverflow \<longleftrightarrow> MAX_SAFE_INTEGER - 64 < L) \<and>
   (0 \<le> L \<and> L \<le> MAX_SAFE_INTEGER - 64 \<and> length (iv this) = 16 \<longrightarrow>
      encryptedLength this L = Inr (16 + 16 * \<lceil>(of_int (L + 1) :: rat) / 16\<rceil> + 32) \<and>
      \<lceil>(of_int (L + 1) :: rat) / 16\<rceil> = L div 16 + 1 \<and>
      0 \<le> L + 1 \<and> L + 1 \<le> MAX_SAFE_INTEGER \<and>
      0 \<le> L div 16 + 1 \<and> 16 * (L div 16 + 1) \<le> MAX_SAFE_INTEGER \<and>
      64 \<le> 16 + 16 * (L div 16 + 1) + 32 \<and>
      16 + 16 * (L div 16 + 1) + 32 \<le> MAX_SAFE_INTEGER)"
proof (intro conjI impI)
  show "encryptedLength this L = Inl LengthOverflow \<longleftrightarrow> MAX_SAFE_INTEGER - 64 < L"
    by (simp add: encryptedLength_def MAX_PLAINTEXT_LENGTH_def Let_def)
next
  assume h: "0 \<le> L \<and> L \<le> MAX_SAFE_INTEGER - 64 \<and> length (iv this) = 16"
  then have le: "L \<le> MAX_PLAINTEXT_LENGTH"
    by (simp add: MAX_PLAINTEXT_LENGTH_def)
  show "encryptedLength this L = Inr (16 + 16 * \<lceil>(of_int (L + 1) :: rat) / 16\<rceil> + 32)"
    unfolding ceiling_blocks using encryptedLength_value [OF le, of this] h by simp
  show "\<lceil>(of_int (L + 1) :: rat) / 16\<rceil> = L div 16 + 1"
    by (rule ceiling_blocks)
  have b1: "16 * (L div 16) \<le> L"
    by (rule sixteen_div_le)
  have b2: "0 \<le> L div 16"
    using h by (simp add: pos_imp_zdiv_nonneg_iff)
  show "0 \<le> L + 1" "L + 1 \<le> MAX_SAFE_INTEGER" "0 \<le> L div 16 + 1"
    "16 * (L div 16 + 1) \<le> MAX_SAFE_INTEGER" "64 \<le> 16 + 16 * (L div 16 + 1) + 32"
    "16 + 16 * (L div 16 + 1) + 32 \<le> MAX_SAFE_INTEGER"
    using b1 b2 h by simp_all
qed

theorem encryptedLength_overflow_exact_witness:
  "encryptedLength \<lparr>hmac = createHmac [], iv = replicate 16 0, aesKey = []\<rparr> 17 = Inr 80 \<and>
   encryptedLength \<lparr>hmac = createHmac [], iv = replicate 16 0, aesKey = []\<rparr> (2 ^ 53 - 64)
     = Inl LengthOverflow"
  using encryptedLength_overflow_exact
          [of "\<lparr>hmac = createHmac [], iv = replicate 16 0, aesKey = []\<rparr>" 17]
        encryptedLength_overflow_exact
          [of "\<lparr>hmac = createHmac [], iv = replicate 16 0, aesKey = []\<rparr>" "2 ^ 53 - 64"]
  by (simp add: MAX_SAFE_INTEGER_def)

section \<open>Typed arrays\<close>

lemma subarray_prefix:
  "0 \<le> n \<Longrightarrow> n \<le> int (length a) \<Longrightarrow> subarray a 0 n = take (nat n) a"
  by (simp add: subarray_def relative_index_def min_def nat_le_iff)

lemma subarray_from_drop: "0 \<le> n \<Longrightarrow> subarray_from a n = drop (nat n) a"
  by (simp add: subarray_from_def relative_index_def min_def)

lemma typed_set_fits:
  "0 \<le> off \<Longrightarrow> off + int (length src) \<le> int (length target) \<Longrightarrow>
   typed_set target src off = Inr (take (nat off) target @ src @ drop (nat off + length src) target)"
  by (simp add: typed_set_def)

lemma next_iv_empty:
  "typed_set v (subarray_from [] (int (length ([]::bytes)) - 16)) 0 = Inr v"
  by (simp add: typed_set_def subarray_from_def relative_index_def)

lemma next_iv_block:
  assumes "length v = 16" "16 \<le> length c"
  shows "typed_set v (subarray_from c (int (length c) - 16)) 0 = Inr (drop (length c - 16) c)"
proof -
  have "subarray_from c (int (length c) - 16) = drop (length c - 16) c"
    using assms(2) by (simp add: subarray_from_drop nat_diff_distrib')
  moreover have "length (drop (length c - 16) c) = 16"
    using assms(2) by simp
  ultimately show ?thesis
    using assms(1) by (simp add: typed_set_def)
qed

section \<open>The non-final encrypt\<close>

lemma aligned_nonempty: "length (pt::bytes) mod 16 = 0 \<Longrightarrow> pt \<noteq> [] \<Longrightarrow> 16 \<le> length pt"
  by (cases "length pt < 16") auto

lemma encrypt_unaligned:
  "length pt mod 16 \<noteq> 0 \<Longrightarrow> encrypt P this dst pt = (Some AlignmentError, this, dst)"
  by (simp add: encrypt_def)

lemma encrypt_bad_length:
  "length pt mod 16 = 0 \<Longrightarrow>
   length (aes_cbc_encrypt P (aesKey this) (iv this) pt) \<noteq> length pt + 16 \<Longrightarrow>
   encrypt P this dst pt = (Some IntegrityError, this, dst)"
  by (simp add: encrypt_def Let_def)

lemma encrypt_step:
  assumes "length pt mod 16 = 0"
    and "length (aes_cbc_encrypt P (aesKey this) (iv this) pt) = length pt + 16"
  shows "encrypt P this dst pt =
    (let ct = take (length pt) (aes_cbc_encrypt P (aesKey this) (iv this) pt) in
     case typed_set (iv this) (subarray_from ct (int (length ct) - 16)) 0 of
       Inl err \<Rightarrow> (Some err, this, dst)
     | Inr iv' \<Rightarrow>
         (case writer_write dst ct of
            (Some err, dst') \<Rightarrow> (Some err, this\<lparr>iv := iv'\<rparr>, dst')
          | (None, dst') \<Rightarrow> (None, this\<lparr>iv := iv', hmac := update (hmac this) ct\<rparr>, dst')))"
proof -
  have "subarray (aes_cbc_encrypt P (aesKey this) (iv this) pt) 0
          (int (length (aes_cbc_encrypt P (aesKey this) (iv this) pt)) - 16)
        = take (length pt) (aes_cbc_encrypt P (aesKey this) (iv this) pt)"
    using assms(2) by (simp add: subarray_prefix)
  then show ?thesis
    unfolding encrypt_def Let_def using assms by (simp split: sum.split prod.split option.split)
qed

lemma encrypt_aligned:
  assumes "length (iv this) = 16" "length pt mod 16 = 0"
    and "length (aes_cbc_encrypt P (aesKey this) (iv this) pt) = length pt + 16"
  shows "encrypt P this dst pt =
    (let ct = take (length pt) (aes_cbc_encrypt P (aesKey this) (iv this) pt);
         iv' = (if pt = [] then iv this else drop (length pt - 16) ct)
     in case writer_write dst ct of
          (Some err, dst') \<Rightarrow> (Some err, this\<lparr>iv := iv'\<rparr>, dst')
        | (None, dst') \<Rightarrow> (None, this\<lparr>iv := iv', hmac := update (hmac this) ct\<rparr>, dst'))"
proof -
  let ?ct = "take (length pt) (aes_cbc_encrypt P (aesKey this) (iv this) pt)"
  have len: "length ?ct = length pt"
    using assms(3) by simp
  have "typed_set (iv this) (subarray_from ?ct (int (length ?ct) - 16)) 0
          = Inr (if pt = [] then iv this else drop (length pt - 16) ?ct)"
  proof (cases "pt = []")
    case True
    then show ?thesis
      using next_iv_empty [of "iv this"] by simp
  next
    case False
    then have "16 \<le> length ?ct"
      using aligned_nonempty [OF assms(2)] len by simp
    from next_iv_block [OF assms(1) this] show ?thesis
      using False len by simp
  qed
  then show ?thesis
    unfolding encrypt_step [OF assms(2,3), of dst] Let_def by simp
qed

section \<open>The writer\<close>

lemma writer_write_frame:
  "writer_write w c = (r, w') \<Longrightarrow>
   closes w' = closes w \<and> accepts w' = accepts w \<and> (\<exists>ws. written w' = written w @ ws)"
  by (auto simp: writer_write_def split: if_splits)

lemma writer_write_accepting:
  "\<not> errored w \<Longrightarrow> \<forall>ws c. accepts w ws c \<Longrightarrow>
   writer_write w c = (None, w\<lparr>written := written w @ [c]\<rparr>)"
  by (simp add: writer_write_def)

section \<open>One chunk\<close>

lemma write_chunk_fits:
  assumes "0 \<le> offset st" "offset st + int (length chunk) < int (length (plaintext st))"
  shows "write_chunk P st chunk =
     Some (None, st\<lparr>plaintext := take (nat (offset st)) (plaintext st) @ chunk @
                                  drop (nat (offset st) + length chunk) (plaintext st),
                     offset := offset st + int (length chunk)\<rparr>)"
proof -
  have amt: "min (int (length (plaintext st)) - offset st) (int (length chunk)) = int (length chunk)"
    using assms by simp
  have sub: "subarray chunk 0 (int (length chunk)) = chunk"
    by (simp add: subarray_prefix)
  have set: "typed_set (plaintext st) chunk (offset st) =
     Inr (take (nat (offset st)) (plaintext st) @ chunk @
          drop (nat (offset st) + length chunk) (plaintext st))"
    using assms by (simp add: typed_set_fits)
  have len: "int (length (take (nat (offset st)) (plaintext st) @ chunk @
          drop (nat (offset st) + length chunk) (plaintext st))) = int (length (plaintext st))"
    using assms by (simp add: min_def)
  show ?thesis
    apply (subst write_chunk.simps)
    apply (simp only: amt sub set Let_def sum.case)
    using assms len apply simp
    done
qed

lemma write_chunk_fills:
  assumes "0 \<le> off" "off < int (length b)" "int (length b) \<le> off + int (length chunk)"
  shows "write_chunk P \<lparr>encrypter = e, writer = w, plaintext = b, offset = off\<rparr> chunk =
     (let room = length b - nat off;
          buf = take (nat off) b @ take room chunk in
      case encrypt P e w buf of
        (Some err, e', w') \<Rightarrow>
          Some (Some err, \<lparr>encrypter = e', writer = w', plaintext = buf,
                           offset = int (length b)\<rparr>)
      | (None, e', w') \<Rightarrow>
          if room < length chunk
          then write_chunk P \<lparr>encrypter = e', writer = w', plaintext = buf, offset = 0\<rparr>
                 (drop room chunk)
          else Some (None, \<lparr>encrypter = e', writer = w', plaintext = buf, offset = 0\<rparr>))"
proof -
  let ?n = "length b"
  let ?room = "?n - nat off"
  let ?buf = "take (nat off) b @ take ?room chunk"
  have amt: "min (int ?n - off) (int (length chunk)) = int ?room"
    using assms by simp
  have sub: "subarray chunk 0 (int ?room) = take ?room chunk"
  proof -
    have le: "int ?room \<le> int (length chunk)"
      using assms by simp
    have "subarray chunk 0 (int ?room) = take (nat (int ?room)) chunk"
      by (rule subarray_prefix [OF _ le]) simp
    then show ?thesis
      by (simp only: nat_int)
  qed
  have ltake: "length (take ?room chunk) = ?room"
    using assms by simp
  have set: "typed_set b (take ?room chunk) off = Inr ?buf"
    using assms ltake by (simp add: typed_set_fits)
  have len: "length ?buf = ?n"
    using assms by simp
  have off: "off + int ?room = int ?n"
    using assms by simp
  have rest: "subarray_from chunk (int ?room) = drop ?room chunk"
    by (simp add: subarray_from_drop)
  have cmp: "(int ?room < int (length chunk)) = (?room < length chunk)"
    by simp
  have step: "write_chunk P \<lparr>encrypter = e, writer = w, plaintext = b, offset = off\<rparr> chunk =
     (case (case encrypt P e w ?buf of
              (Some err, e', w') \<Rightarrow>
                (Some err, \<lparr>encrypter = e', writer = w', plaintext = ?buf, offset = int ?n\<rparr>)
            | (None, e', w') \<Rightarrow>
                (None, \<lparr>encrypter = e', writer = w', plaintext = ?buf, offset = 0\<rparr>)) of
        (Some err, st') \<Rightarrow> Some (Some err, st')
      | (None, st') \<Rightarrow>
          if ?room < length chunk then write_chunk P st' (drop ?room chunk)
          else Some (None, st'))"
    apply (subst write_chunk.simps)
    apply (simp only: pump.simps amt sub set Let_def sum.case off rest cmp len if_True refl)
    done
  show ?thesis
    unfolding step Let_def by (simp split: prod.split option.split)
qed


section \<open>The pump and the byte sequence\<close>

lemma feed_short: "n = 0 \<or> length xs < n \<Longrightarrow> feed P n e w xs = (None, e, w, xs)"
  by (subst feed.simps) simp

lemma feed_full:
  "0 < n \<Longrightarrow> n \<le> length xs \<Longrightarrow>
   feed P n e w xs =
     (case encrypt P e w (take n xs) of
        (Some err, e', w') \<Rightarrow> (Some err, e', w', [])
      | (None, e', w') \<Rightarrow> feed P n e' w' (drop n xs))"
  by (subst feed.simps) simp

lemma write_chunk_feed_nat:
  assumes "k < length b"
  shows "\<exists>x. write_chunk P \<lparr>encrypter = e, writer = w, plaintext = b, offset = int k\<rparr> chunk = Some x \<and>
             agrees (length b) x (feed P (length b) e w (take k b @ chunk))"
  using assms
proof (induction "length chunk" arbitrary: chunk e w b k rule: less_induct)
  case less
  let ?n = "length b"
  let ?xs = "take k b @ chunk"
  have lxs: "length ?xs = k + length chunk"
    using less.prems by simp
  show ?case
  proof (cases "k + length chunk < ?n")
    case True
    have f: "feed P ?n e w ?xs = (None, e, w, ?xs)"
      using True lxs by (intro feed_short) simp
    have wc: "write_chunk P \<lparr>encrypter = e, writer = w, plaintext = b, offset = int k\<rparr> chunk =
        Some (None, \<lparr>encrypter = e, writer = w,
                      plaintext = take k b @ chunk @ drop (k + length chunk) b,
                      offset = int k + int (length chunk)\<rparr>)"
      using write_chunk_fits [of "\<lparr>encrypter = e, writer = w, plaintext = b, offset = int k\<rparr>" chunk P]
        True by simp
    have tk: "take (k + length chunk) (take k b @ chunk @ drop (k + length chunk) b) = ?xs"
      using True by simp
    have ln: "length (take k b @ chunk @ drop (k + length chunk) b) = ?n"
      using True by simp
    have nn: "nat (int k + int (length chunk)) = k + length chunk"
      by (simp add: nat_add_distrib)
    show ?thesis
      unfolding wc f agrees_def using tk ln True nn by simp
  next
    case False
    let ?room = "?n - k"
    let ?buf = "take k b @ take ?room chunk"
    have room: "0 < ?room" "?room \<le> length chunk"
      using False less.prems by simp_all
    have n0: "0 < ?n"
      using less.prems by (rule le_less_trans [OF le0])
    have nle: "?n \<le> length ?xs"
      using False lxs by simp
    note npos = n0 nle
    have tk: "take ?n ?xs = ?buf"
      using less.prems by simp
    have dr: "drop ?n ?xs = drop ?room chunk"
      using less.prems by simp
    have lbuf: "length ?buf = ?n"
      using room less.prems by simp
    have f: "feed P ?n e w ?xs =
       (case encrypt P e w ?buf of
          (Some err, e', w') \<Rightarrow> (Some err, e', w', [])
        | (None, e', w') \<Rightarrow> feed P ?n e' w' (drop ?room chunk))"
      unfolding feed_full [OF npos] tk dr ..
    have wc: "write_chunk P \<lparr>encrypter = e, writer = w, plaintext = b, offset = int k\<rparr> chunk =
       (case encrypt P e w ?buf of
          (Some err, e', w') \<Rightarrow>
            Some (Some err, \<lparr>encrypter = e', writer = w', plaintext = ?buf, offset = int ?n\<rparr>)
        | (None, e', w') \<Rightarrow>
            if ?room < length chunk
            then write_chunk P \<lparr>encrypter = e', writer = w', plaintext = ?buf, offset = 0\<rparr>
                   (drop ?room chunk)
            else Some (None, \<lparr>encrypter = e', writer = w', plaintext = ?buf, offset = 0\<rparr>))"
      using write_chunk_fills [of "int k" b chunk P e w] False less.prems by (simp add: Let_def)
    obtain r1 e1 w1 where enc: "encrypt P e w ?buf = (r1, e1, w1)"
      by (cases "encrypt P e w ?buf") auto
    show ?thesis
    proof (cases r1)
      case (Some err)
      then show ?thesis
        unfolding wc f enc agrees_def by simp
    next
      case None
      show ?thesis
      proof (cases "?room < length chunk")
        case True
        have shorter: "length (drop ?room chunk) < length chunk"
          using room by simp
        have pos: "0 < length ?buf"
          using npos lbuf by simp
        have "\<exists>x. write_chunk P \<lparr>encrypter = e1, writer = w1, plaintext = ?buf, offset = int 0\<rparr>
                     (drop ?room chunk) = Some x \<and>
                   agrees (length ?buf) x
                     (feed P (length ?buf) e1 w1 (take 0 ?buf @ drop ?room chunk))"
          by (rule less.hyps [OF shorter pos])
        then show ?thesis
          unfolding wc f enc using None True lbuf by simp
      next
        case False
        then have "drop ?room chunk = []"
          by simp
        then show ?thesis
          unfolding wc f enc agrees_def using None False npos by (simp add: feed_short lbuf)
      qed
    qed
  qed
qed

lemma write_chunk_feed:
  assumes "0 \<le> offset st" "offset st < int (length (plaintext st))"
  shows "\<exists>x. write_chunk P st chunk = Some x \<and>
             agrees (length (plaintext st)) x
               (feed P (length (plaintext st)) (encrypter st) (writer st)
                  (take (nat (offset st)) (plaintext st) @ chunk))"
proof (cases st)
  case (fields e w b off)
  obtain k where k: "off = int k"
    using assms(1) fields by (auto dest: zero_le_imp_eq_int)
  have "k < length b"
    using assms(2) fields k by simp
  from write_chunk_feed_nat [OF this, of P e w chunk] show ?thesis
    using fields k by simp
qed

lemma feed_append:
  "feed P n e w (xs @ ys) =
     (case feed P n e w xs of
        (Some err, e', w', p) \<Rightarrow> (Some err, e', w', [])
      | (None, e', w', p) \<Rightarrow> feed P n e' w' (p @ ys))"
proof (induction "length xs" arbitrary: xs e w rule: less_induct)
  case less
  show ?case
  proof (cases "n = 0 \<or> length xs < n")
    case True
    then show ?thesis
      by (simp add: feed_short)
  next
    case False
    then have n: "0 < n" "n \<le> length xs" "n \<le> length (xs @ ys)"
      by simp_all
    have tk: "take n (xs @ ys) = take n xs" and dr: "drop n (xs @ ys) = drop n xs @ ys"
      using n by simp_all
    obtain r1 e1 w1 where enc: "encrypt P e w (take n xs) = (r1, e1, w1)"
      by (cases "encrypt P e w (take n xs)") auto
    show ?thesis
    proof (cases r1)
      case None
      have shorter: "length (drop n xs) < length xs"
        using n by simp
      show ?thesis
        unfolding feed_full [OF n(1,3)] feed_full [OF n(1,2)] tk dr enc
        using None less.hyps [OF shorter] by simp
    next
      case (Some err)
      then show ?thesis
        unfolding feed_full [OF n(1,3)] feed_full [OF n(1,2)] tk dr enc by simp
    qed
  qed
qed

lemma feed_error_tail: "feed P n e w xs = (Some err, e', w', p) \<Longrightarrow> p = []"
proof (induction "length xs" arbitrary: xs e w rule: less_induct)
  case less
  show ?case
  proof (cases "n = 0 \<or> length xs < n")
    case True
    then show ?thesis
      using less.prems by (simp add: feed_short)
  next
    case False
    then have n: "0 < n" "n \<le> length xs"
      by simp_all
    have shorter: "length (drop n xs) < length xs"
      using n by simp
    show ?thesis
      using less.prems less.hyps [OF shorter] unfolding feed_full [OF n]
      by (auto split: prod.splits option.splits)
  qed
qed

lemma feed_staged:
  assumes "0 \<le> off" "off < int (length b)"
  shows "feed P (length b) e w (take (nat off) b) = (None, e, w, take (nat off) b)"
proof -
  have "nat off < length b"
    using assms by (simp add: nat_less_iff)
  then show ?thesis
    by (intro feed_short disjI2) simp
qed

lemma for_await_feed:
  assumes "0 \<le> offset st" "offset st < int (length (plaintext st))"
  shows "\<exists>r st' rest. for_await P st src = Some (r, st', rest) \<and>
           (case feed P (length (plaintext st)) (encrypter st) (writer st)
                   (take (nat (offset st)) (plaintext st) @ delivered src) of
              (fr, fe, fw, fp) \<Rightarrow>
                agrees (length (plaintext st)) (fr, st') (fr, fe, fw, fp) \<and>
                r = (case fr of Some err \<Rightarrow> Some err | None \<Rightarrow> failure src) \<and>
                (r = None \<longrightarrow> rest = []))"
  using assms
proof (induction src arbitrary: st)
  case Nil
  have "feed P (length (plaintext st)) (encrypter st) (writer st)
          (take (nat (offset st)) (plaintext st))
        = (None, encrypter st, writer st, take (nat (offset st)) (plaintext st))"
    using Nil by (rule feed_staged)
  then show ?case
    using Nil by (simp add: agrees_def)
next
  case (Cons a src)
  let ?n = "length (plaintext st)"
  let ?pre = "take (nat (offset st)) (plaintext st)"
  show ?case
  proof (cases a)
    case (Inl err)
    have "feed P ?n (encrypter st) (writer st) ?pre = (None, encrypter st, writer st, ?pre)"
      using Cons.prems by (rule feed_staged)
    then show ?thesis
      using Inl Cons.prems by (simp add: agrees_def)
  next
    case (Inr c)
    obtain r1 st1 where wc: "write_chunk P st c = Some (r1, st1)"
      and ag: "agrees ?n (r1, st1) (feed P ?n (encrypter st) (writer st) (?pre @ c))"
      using write_chunk_feed [OF Cons.prems, of P c] by auto
    obtain fe fw fp where f1: "feed P ?n (encrypter st) (writer st) (?pre @ c) = (r1, fe, fw, fp)"
      using ag by (cases "feed P ?n (encrypter st) (writer st) (?pre @ c)") (auto simp: agrees_def)
    have whole: "feed P ?n (encrypter st) (writer st) (?pre @ delivered (a # src)) =
       (case r1 of Some err \<Rightarrow> (Some err, fe, fw, [])
                 | None \<Rightarrow> feed P ?n fe fw (fp @ delivered src))"
      using feed_append [of P ?n "encrypter st" "writer st" "?pre @ c" "delivered src"] f1 Inr
      by (simp split: option.split)
    show ?thesis
    proof (cases r1)
      case (Some err)
      then show ?thesis
        using wc ag f1 whole Inr by (simp add: agrees_def)
    next
      case None
      then have inv: "0 \<le> offset st1" "offset st1 < int (length (plaintext st1))"
        and eqs: "length (plaintext st1) = ?n" "encrypter st1 = fe" "writer st1 = fw"
          "take (nat (offset st1)) (plaintext st1) = fp"
        using ag f1 by (simp_all add: agrees_def)
      have fl: "failure (a # src) = failure src" and fa: "for_await P st (a # src) = for_await P st1 src"
        using Inr wc None by simp_all
      from Cons.IH [OF inv, unfolded eqs] show ?thesis
        unfolding fl fa whole None by simp
    qed
  qed
qed

lemma streamEncrypt_try_pumped:
  assumes "bufferSize \<noteq> 0"
  shows "\<exists>rest. streamEncrypt_try P e src w bufferSize =
            Some (case pumped P e w bufferSize (delivered src) (failure src) of
                    (r, e', w') \<Rightarrow> (r, e', rest, w')) \<and>
          (fst (pumped P e w bufferSize (delivered src) (failure src)) = None \<longrightarrow> rest = [])"
proof -
  obtain r0 e0 w0 where i: "init e w = (r0, e0, w0)"
    by (cases "init e w") auto
  show ?thesis
  proof (cases "r0 \<noteq> None \<or> bufferSize < 0")
    case True
    then show ?thesis
      using i by (cases r0) (auto simp: streamEncrypt_try_def pumped_def)
  next
    case False
    then have r0: "r0 = None" and pos: "0 < bufferSize"
      using assms by simp_all
    let ?st = "\<lparr>encrypter = e0, writer = w0,
                 plaintext = replicate (nat bufferSize) 0, offset = 0\<rparr>"
    have inv: "0 \<le> offset ?st" "offset ?st < int (length (plaintext ?st))"
      using pos by simp_all
    obtain r st' rest where fa: "for_await P ?st src = Some (r, st', rest)"
      and rel: "case feed P (nat bufferSize) e0 w0 (delivered src) of
              (fr, fe, fw, fp) \<Rightarrow>
                agrees (nat bufferSize) (fr, st') (fr, fe, fw, fp) \<and>
                r = (case fr of Some err \<Rightarrow> Some err | None \<Rightarrow> failure src) \<and>
                (r = None \<longrightarrow> rest = [])"
      using for_await_feed [OF inv, of P src] by auto
    obtain fr fe fw fp where f: "feed P (nat bufferSize) e0 w0 (delivered src) = (fr, fe, fw, fp)"
      by (cases "feed P (nat bufferSize) e0 w0 (delivered src)") auto
    have ag: "agrees (nat bufferSize) (fr, st') (fr, fe, fw, fp)"
      and r: "r = (case fr of Some err \<Rightarrow> Some err | None \<Rightarrow> failure src)"
      and rs: "r = None \<longrightarrow> rest = []"
      using rel f by simp_all
    have ew: "encrypter st' = fe" "writer st' = fw"
      using ag by (simp_all add: agrees_def)
    show ?thesis
    proof (cases r)
      case (Some err)
      then show ?thesis
        using i r0 pos fa f r ew
        by (auto simp: streamEncrypt_try_def pumped_def split: option.splits)
    next
      case None
      then have frn: "fr = None" and fl: "failure src = None"
        using r by (auto split: option.splits)
      have tail: "subarray (plaintext st') 0 (offset st') = fp"
        using ag frn by (simp add: agrees_def subarray_prefix)
      obtain r2 e2 w2 where fin: "finish P fe fw fp = (r2, e2, w2)"
        by (cases "finish P fe fw fp") auto
      show ?thesis
        using i r0 pos fa f frn fl ew tail fin None rs
        by (simp add: streamEncrypt_try_def pumped_def)
    qed
  qed
qed

lemma streamEncrypt_pumped:
  assumes "or_default arg smod 16 = 0"
  shows "\<exists>rest. streamEncrypt P e src dst arg =
            Some (case pumped P e dst (or_default arg) (delivered src) (failure src) of
                    (r, e', w) \<Rightarrow>
                      (case writer_close w of
                         (Some err, w') \<Rightarrow> (Some err, e', rest, w')
                       | (None, w') \<Rightarrow> (r, e', rest, w'))) \<and>
          (fst (pumped P e dst (or_default arg) (delivered src) (failure src)) = None
             \<longrightarrow> rest = [])"
proof -
  have nz: "or_default arg \<noteq> 0"
    by (simp add: or_default_def split: option.split)
  obtain rest where t: "streamEncrypt_try P e src dst (or_default arg) =
            Some (case pumped P e dst (or_default arg) (delivered src) (failure src) of
                    (r, e', w') \<Rightarrow> (r, e', rest, w'))"
    and rs: "fst (pumped P e dst (or_default arg) (delivered src) (failure src)) = None
             \<longrightarrow> rest = []"
    using streamEncrypt_try_pumped [OF nz, of P e src dst] by auto
  show ?thesis
    using assms rs unfolding streamEncrypt_def Let_def t
    by (intro exI [of _ rest]) (auto split: prod.split option.split)
qed

lemma extends_iff:
  "extends w w' \<longleftrightarrow> closes w' = closes w \<and> (\<exists>ws. written w' = written w @ ws)"
proof -
  have "(\<exists>ws. written w @ ws = written w') \<longleftrightarrow>
        take (length (written w)) (written w') = written w"
    by (auto simp: append_eq_conv_conj)
  then show ?thesis
    unfolding extends_def by (auto simp: eq_commute)
qed

lemma extends_refl: "extends w w"
  by (simp add: extends_def)

lemma extends_trans: "extends a b \<Longrightarrow> extends b c \<Longrightarrow> extends a c"
  unfolding extends_iff by auto

lemma writer_write_extends: "writer_write w c = (r, w') \<Longrightarrow> extends w w'"
  by (auto simp: writer_write_def extends_def split: if_splits)

lemma init_extends: "init e w = (r, e', w') \<Longrightarrow> extends w w'"
  by (auto simp: init_def split: prod.splits option.splits dest: writer_write_extends)

lemma encrypt_extends: "encrypt P e w pt = (r, e', w') \<Longrightarrow> extends w w'"
  by (auto simp: encrypt_def Let_def extends_refl
           split: if_splits sum.splits prod.splits option.splits dest: writer_write_extends)

lemma finish_extends: "finish P e w pt = (r, e', w') \<Longrightarrow> extends w w'"
  by (auto simp: finish_def Let_def split: prod.splits option.splits
           dest!: writer_write_extends intro: extends_trans)

lemma feed_extends: "feed P n e w xs = (r, e', w', p) \<Longrightarrow> extends w w'"
proof (induction "length xs" arbitrary: xs e w rule: less_induct)
  case less
  show ?case
  proof (cases "n = 0 \<or> length xs < n")
    case True
    then show ?thesis
      using less.prems by (simp add: feed_short extends_refl)
  next
    case False
    then have n: "0 < n" "n \<le> length xs"
      by simp_all
    have shorter: "length (drop n xs) < length xs"
      using n by simp
    obtain r1 e1 w1 where enc: "encrypt P e w (take n xs) = (r1, e1, w1)"
      by (cases "encrypt P e w (take n xs)") auto
    have first: "extends w w1"
      using enc by (rule encrypt_extends)
    show ?thesis
    proof (cases r1)
      case None
      then have "feed P n e1 w1 (drop n xs) = (r, e', w', p)"
        using less.prems enc unfolding feed_full [OF n] by simp
      from less.hyps [OF shorter this] first show ?thesis
        by (rule extends_trans [rotated])
    next
      case (Some err)
      then show ?thesis
        using less.prems enc first unfolding feed_full [OF n] by simp
    qed
  qed
qed

lemma pumped_extends: "pumped P e w bufferSize data fail = (r, e', w') \<Longrightarrow> extends w w'"
proof -
  assume p: "pumped P e w bufferSize data fail = (r, e', w')"
  obtain r0 e0 w0 where i: "init e w = (r0, e0, w0)"
    by (cases "init e w") auto
  have i_ext: "extends w w0"
    using i by (rule init_extends)
  obtain fr fe fw fp where f: "feed P (nat bufferSize) e0 w0 data = (fr, fe, fw, fp)"
    by (cases "feed P (nat bufferSize) e0 w0 data") auto
  have f_ext: "extends w fw"
    using i_ext feed_extends [OF f] by (rule extends_trans)
  obtain r2 e2 w2 where fin: "finish P fe fw fp = (r2, e2, w2)"
    by (cases "finish P fe fw fp") auto
  have fin_ext: "extends w w2"
    using f_ext finish_extends [OF fin] by (rule extends_trans)
  show ?thesis
    using p i f fin i_ext f_ext fin_ext
    by (auto simp: pumped_def split: option.splits if_splits)
qed

section \<open>CBC with PKCS#7 padding\<close>

lemma length_bytes_of_block: "length (bytes_of_block w) = 16"
  by (simp add: bytes_of_block_def)

lemma cbc_chain_short: "length d < 16 \<Longrightarrow> cbc_chain F v d = []"
  by (subst cbc_chain.simps) simp

lemma cbc_chain_step:
  "16 \<le> length d \<Longrightarrow>
   cbc_chain F v d =
     bytes_of_block (F (block_of_bytes (take 16 d) XOR block_of_bytes v)) @
     cbc_chain F (bytes_of_block (F (block_of_bytes (take 16 d) XOR block_of_bytes v)))
       (drop 16 d)"
  by (subst cbc_chain.simps) (simp add: Let_def)

lemma length_cbc_chain: "length (cbc_chain F v d) = 16 * (length d div 16)"
proof (induction "length d" arbitrary: d v rule: less_induct)
  case less
  show ?case
  proof (cases "length d < 16")
    case True
    then show ?thesis
      by (simp add: cbc_chain_short)
  next
    case False
    then have ge: "16 \<le> length d"
      by simp
    have shorter: "length (drop 16 d) < length d"
      using ge by simp
    have "length d div 16 = Suc ((length d - 16) div 16)"
      using ge by (simp add: le_div_geq)
    then show ?thesis
      using less.hyps [OF shorter] by (simp add: cbc_chain_step [OF ge] length_bytes_of_block)
  qed
qed

lemma length_cbc_chain_aligned: "length d mod 16 = 0 \<Longrightarrow> length (cbc_chain F v d) = length d"
  using mult_div_mod_eq [of 16 "length d"] by (simp add: length_cbc_chain)

lemma length_pkcs7_pad: "length (pkcs7_pad d) = 16 * (length d div 16 + 1)"
proof -
  have a: "\<And>n q r::nat. 16 * q + r = n \<Longrightarrow> r < 16 \<Longrightarrow> n + (16 - r) = 16 * (q + 1)"
    by simp
  have "length d mod 16 < 16"
    by simp
  with mult_div_mod_eq [of 16 "length d"]
  have "length d + (16 - length d mod 16) = 16 * (length d div 16 + 1)"
    by (rule a)
  then show ?thesis
    by (simp add: pkcs7_pad_def Let_def)
qed

lemma pkcs7_pad_append: "length a mod 16 = 0 \<Longrightarrow> pkcs7_pad (a @ b) = a @ pkcs7_pad b"
proof -
  assume "length a mod 16 = 0"
  then have "(length a + length b) mod 16 = length b mod 16"
    by (metis add_0 mod_add_left_eq)
  then show ?thesis
    by (simp add: pkcs7_pad_def Let_def)
qed

lemma pkcs7_pad_aligned: "length (pkcs7_pad d) mod 16 = 0"
  by (simp add: length_pkcs7_pad)

lemma last_block_append:
  assumes "length c = 16" "length r mod 16 = 0"
  shows "last_block v (c @ r) = last_block c r"
proof (cases "r = []")
  case True
  then show ?thesis
    using assms(1) by (auto simp: last_block_def)
next
  case False
  then have "16 \<le> length r"
    using assms(2) by (rule aligned_nonempty [rotated])
  then show ?thesis
    using assms(1) False by (simp add: last_block_def)
qed

lemma cbc_chain_append:
  "length a mod 16 = 0 \<Longrightarrow>
   cbc_chain F v (a @ b) = cbc_chain F v a @ cbc_chain F (last_block v (cbc_chain F v a)) b"
proof (induction "length a" arbitrary: a v rule: less_induct)
  case less
  show ?case
  proof (cases "a = []")
    case True
    then show ?thesis
      by (simp add: cbc_chain_short last_block_def)
  next
    case False
    then have ge: "16 \<le> length a"
      using less.prems by (rule aligned_nonempty [rotated])
    then have ge': "16 \<le> length (a @ b)"
      by simp
    let ?c = "bytes_of_block (F (block_of_bytes (take 16 a) XOR block_of_bytes v))"
    have shorter: "length (drop 16 a) < length a"
      using ge by simp
    have al: "length (drop 16 a) mod 16 = 0"
      using less.prems by (auto simp: mod_eq_0_iff_dvd intro: dvd_diff_nat)
    have tk: "take 16 (a @ b) = take 16 a" and dr: "drop 16 (a @ b) = drop 16 a @ b"
      using ge by simp_all
    have whole: "cbc_chain F v (a @ b) = ?c @ cbc_chain F ?c (drop 16 a @ b)"
      unfolding cbc_chain_step [OF ge'] tk dr ..
    have part: "cbc_chain F v a = ?c @ cbc_chain F ?c (drop 16 a)"
      by (rule cbc_chain_step [OF ge])
    have lb: "last_block v (?c @ cbc_chain F ?c (drop 16 a)) =
              last_block ?c (cbc_chain F ?c (drop 16 a))"
      by (rule last_block_append) (simp_all add: length_bytes_of_block length_cbc_chain)
    show ?thesis
      unfolding whole part lb less.hyps [OF shorter al] by simp
  qed
qed

lemma length_aes_cbc: "length (aes_cbc E k v d) = 16 * (length d div 16 + 1)"
  by (simp add: aes_cbc_def length_cbc_chain length_pkcs7_pad)

lemma aes_cbc_append:
  "length a mod 16 = 0 \<Longrightarrow>
   aes_cbc E k v (a @ b) =
     cbc_chain (E k) v a @ aes_cbc E k (last_block v (cbc_chain (E k) v a)) b"
  by (simp add: aes_cbc_def pkcs7_pad_append cbc_chain_append)

lemma aes_cbc_take:
  assumes "length a mod 16 = 0"
  shows "take (length a) (aes_cbc E k v a) = cbc_chain (E k) v a"
proof -
  have "aes_cbc E k v (a @ []) =
     cbc_chain (E k) v a @ aes_cbc E k (last_block v (cbc_chain (E k) v a)) []"
    using assms by (rule aes_cbc_append)
  then show ?thesis
    using length_cbc_chain_aligned [OF assms, of "E k" v] by simp
qed

lemma writer_write_None:
  "writer_write w c = (None, w') \<Longrightarrow> w' = w\<lparr>written := written w @ [c]\<rparr>"
  by (auto simp: writer_write_def split: if_splits)

lemma init_None:
  "init e w = (None, e', w') \<Longrightarrow>
   e' = e\<lparr>hmac := update (hmac e) (iv e)\<rparr> \<and> w' = w\<lparr>written := written w @ [iv e]\<rparr>"
  by (auto simp: init_def split: prod.splits option.splits dest: writer_write_None)

lemma finish_None:
  "finish P e w tail = (None, e', w') \<Longrightarrow>
   w' = w\<lparr>written := written w @
          [aes_cbc_encrypt P (aesKey e) (iv e) tail,
           hmac_sha256 P (hmac_key (hmac e))
             (hmac_data (hmac e) @ aes_cbc_encrypt P (aesKey e) (iv e) tail)]\<rparr>"
  by (auto simp: finish_def Let_def digest_def update_def
           split: prod.splits option.splits dest!: writer_write_None)

lemma encrypt_None:
  assumes "encrypt P e w pt = (None, e', w')" "length (iv e) = 16"
  shows "length pt mod 16 = 0 \<and>
         length (aes_cbc_encrypt P (aesKey e) (iv e) pt) = length pt + 16 \<and>
         e' = e\<lparr>iv := last_block (iv e) (take (length pt) (aes_cbc_encrypt P (aesKey e) (iv e) pt)),
                hmac := update (hmac e) (take (length pt) (aes_cbc_encrypt P (aesKey e) (iv e) pt))\<rparr> \<and>
         w' = w\<lparr>written := written w @
                 [take (length pt) (aes_cbc_encrypt P (aesKey e) (iv e) pt)]\<rparr>"
proof -
  let ?raw = "aes_cbc_encrypt P (aesKey e) (iv e) pt"
  have al: "length pt mod 16 = 0"
    using assms(1) by (cases "length pt mod 16 = 0") (simp_all add: encrypt_unaligned)
  have ln: "length ?raw = length pt + 16"
    using assms(1) al by (cases "length ?raw = length pt + 16") (simp_all add: encrypt_bad_length)
  have lb: "last_block (iv e) (take (length pt) ?raw) =
            (if pt = [] then iv e else drop (length pt - 16) (take (length pt) ?raw))"
  proof -
    have "length (take (length pt) ?raw) = length pt"
      using ln by simp
    then have "(take (length pt) ?raw = []) = (pt = [])"
      by (metis length_0_conv)
    then show ?thesis
      using ln by (simp add: last_block_def)
  qed
  show ?thesis
    using assms(1) al ln unfolding encrypt_aligned [OF assms(2) al ln] lb Let_def
    by (auto split: prod.splits option.splits dest: writer_write_None)
qed

section \<open>Complete sessions\<close>

lemma length_last_block:
  assumes "length v = 16" "length ct mod 16 = 0"
  shows "length (last_block v ct) = 16"
proof (cases "ct = []")
  case True
  then show ?thesis
    using assms(1) by (simp add: last_block_def)
next
  case False
  then have "16 \<le> length ct"
    using assms(2) by (rule aligned_nonempty [rotated])
  then show ?thesis
    using False by (simp add: last_block_def)
qed

lemma last_block_twice:
  assumes "length b mod 16 = 0"
  shows "last_block (last_block v a) b = last_block v (a @ b)"
proof (cases "b = []")
  case True
  then show ?thesis
    by (simp add: last_block_def)
next
  case False
  then have "16 \<le> length b"
    using assms by (rule aligned_nonempty [rotated])
  then show ?thesis
    using False by (simp add: last_block_def)
qed

lemma session_steps:
  "session P e w bufs tail = (None, e', w') \<Longrightarrow>
   \<exists>e1 w1 e2 w2. init e w = (None, e1, w1) \<and> encrypt_all P e1 w1 bufs = (None, e2, w2) \<and>
                  finish P e2 w2 tail = (None, e', w')"
  by (auto simp: session_def split: prod.splits option.splits)

lemma encrypt_all_None:
  assumes "encrypt_all P e w bufs = (None, e', w')" "length (iv e) = 16"
  shows "\<exists>cts. w' = w\<lparr>written := written w @ cts\<rparr> \<and>
               hmac e' = (hmac e)\<lparr>hmac_data := hmac_data (hmac e) @ concat cts\<rparr> \<and>
               aesKey e' = aesKey e \<and> length (iv e') = 16 \<and>
               length (concat cts) = length (concat bufs)"
  using assms
proof (induction bufs arbitrary: e w)
  case Nil
  then show ?case
    by (intro exI [of _ "[]"]) simp
next
  case (Cons b bufs)
  obtain r1 e1 w1 where enc: "encrypt P e w b = (r1, e1, w1)"
    by (cases "encrypt P e w b") auto
  have r1: "r1 = None"
    using Cons.prems(1) enc by (cases r1) simp_all
  let ?ct = "take (length b) (aes_cbc_encrypt P (aesKey e) (iv e) b)"
  from encrypt_None [OF enc [unfolded r1] Cons.prems(2)]
  have al: "length b mod 16 = 0"
    and ln: "length (aes_cbc_encrypt P (aesKey e) (iv e) b) = length b + 16"
    and e1: "e1 = e\<lparr>iv := last_block (iv e) ?ct, hmac := update (hmac e) ?ct\<rparr>"
    and w1: "w1 = w\<lparr>written := written w @ [?ct]\<rparr>"
    by simp_all
  have lct: "length ?ct = length b"
    using ln by simp
  have iv1: "length (iv e1) = 16"
    using e1 length_last_block [OF Cons.prems(2), of ?ct] lct al by simp
  have rest: "encrypt_all P e1 w1 bufs = (None, e', w')"
    using Cons.prems(1) enc r1 by simp
  from Cons.IH [OF rest iv1] obtain cts where
    w': "w' = w1\<lparr>written := written w1 @ cts\<rparr>"
    and h': "hmac e' = (hmac e1)\<lparr>hmac_data := hmac_data (hmac e1) @ concat cts\<rparr>"
    and k': "aesKey e' = aesKey e1" and v': "length (iv e') = 16"
    and l': "length (concat cts) = length (concat bufs)"
    by auto
  show ?case
    using w' h' k' v' l' e1 w1 lct
    by (intro exI [of _ "?ct # cts"]) (simp add: update_def)
qed

lemma session_None:
  assumes "session P e w bufs tail = (None, e', w')" "length (iv e) = 16"
  shows "\<exists>cts fin v.
           w' = w\<lparr>written := written w @ [iv e] @ cts @
                     [fin, hmac_sha256 P (hmac_key (hmac e))
                             (hmac_data (hmac e) @ iv e @ concat cts @ fin)]\<rparr> \<and>
           length (concat cts) = length (concat bufs) \<and>
           length v = 16 \<and> fin = aes_cbc_encrypt P (aesKey e) v tail"
proof -
  obtain e1 w1 e2 w2 where i: "init e w = (None, e1, w1)"
    and a: "encrypt_all P e1 w1 bufs = (None, e2, w2)"
    and f: "finish P e2 w2 tail = (None, e', w')"
    using session_steps [OF assms(1)] by auto
  have e1: "e1 = e\<lparr>hmac := update (hmac e) (iv e)\<rparr>"
    and w1: "w1 = w\<lparr>written := written w @ [iv e]\<rparr>"
    using init_None [OF i] by simp_all
  have iv1: "length (iv e1) = 16"
    using e1 assms(2) by simp
  obtain cts where w2: "w2 = w1\<lparr>written := written w1 @ cts\<rparr>"
    and h2: "hmac e2 = (hmac e1)\<lparr>hmac_data := hmac_data (hmac e1) @ concat cts\<rparr>"
    and k2: "aesKey e2 = aesKey e1" and v2: "length (iv e2) = 16"
    and l2: "length (concat cts) = length (concat bufs)"
    using encrypt_all_None [OF a iv1] by auto
  let ?fin = "aes_cbc_encrypt P (aesKey e) (iv e2) tail"
  have "w' = w2\<lparr>written := written w2 @
          [aes_cbc_encrypt P (aesKey e2) (iv e2) tail,
           hmac_sha256 P (hmac_key (hmac e2))
             (hmac_data (hmac e2) @ aes_cbc_encrypt P (aesKey e2) (iv e2) tail)]\<rparr>"
    by (rule finish_None [OF f])
  then have "w' = w\<lparr>written := written w @ [iv e] @ cts @
                     [?fin, hmac_sha256 P (hmac_key (hmac e))
                             (hmac_data (hmac e) @ iv e @ concat cts @ ?fin)]\<rparr>"
    using w2 h2 k2 e1 w1 by (simp add: update_def)
  then show ?thesis
    using l2 v2 by blast
qed

lemma create_Inr:
  "create iv0 hmacKey aesKeyBytes = Inr e \<Longrightarrow>
   e = \<lparr>hmac = createHmac hmacKey, iv = iv0, aesKey = aesKeyBytes\<rparr> \<and> length iv0 = 16 \<and>
   length aesKeyBytes \<in> {16, 24, 32}"
  by (auto simp: create_def importKey_def new_Encrypter_def split: if_splits)


lemma length_demo_mac: "\<forall>k m. length (hmac_sha256 demo_platform k m) = 32"
  by (auto simp: demo_platform_def webcrypto_def demo_mac_def min_def)

section \<open>The pump as a session\<close>

lemma buffers_short: "n = 0 \<or> length xs < n \<Longrightarrow> buffers n xs = []"
  by (subst buffers.simps) simp

lemma buffers_full:
  "0 < n \<Longrightarrow> n \<le> length xs \<Longrightarrow> buffers n xs = take n xs # buffers n (drop n xs)"
  by (subst buffers.simps) simp

lemma staged_short: "n = 0 \<or> length xs < n \<Longrightarrow> staged n xs = xs"
  by (subst staged.simps) simp

lemma staged_full: "0 < n \<Longrightarrow> n \<le> length xs \<Longrightarrow> staged n xs = staged n (drop n xs)"
  by (subst staged.simps) simp

lemma feed_buffers:
  "feed P n e w xs =
     (case encrypt_all P e w (buffers n xs) of
        (Some err, e', w') \<Rightarrow> (Some err, e', w', [])
      | (None, e', w') \<Rightarrow> (None, e', w', staged n xs))"
proof (induction "length xs" arbitrary: xs e w rule: less_induct)
  case less
  show ?case
  proof (cases "n = 0 \<or> length xs < n")
    case True
    then show ?thesis
      by (simp add: feed_short buffers_short staged_short)
  next
    case False
    then have n: "0 < n" "n \<le> length xs"
      by simp_all
    have shorter: "length (drop n xs) < length xs"
      using n by simp
    obtain r1 e1 w1 where enc: "encrypt P e w (take n xs) = (r1, e1, w1)"
      by (cases "encrypt P e w (take n xs)") auto
    show ?thesis
      unfolding feed_full [OF n] buffers_full [OF n] staged_full [OF n]
      using enc less.hyps [OF shorter, of e1 w1] by (cases r1) simp_all
  qed
qed

lemma pumped_session:
  "0 < bufferSize \<Longrightarrow>
   pumped P e w bufferSize data None =
     session P e w (buffers (nat bufferSize) data) (staged (nat bufferSize) data)"
  unfolding pumped_def session_def feed_buffers
  by (auto split: prod.splits option.splits)

lemma concat_buffers: "concat (buffers n xs) @ staged n xs = xs"
proof (induction "length xs" arbitrary: xs rule: less_induct)
  case less
  show ?case
  proof (cases "n = 0 \<or> length xs < n")
    case True
    then show ?thesis
      by (simp add: buffers_short staged_short)
  next
    case False
    then have n: "0 < n" "n \<le> length xs"
      by simp_all
    have shorter: "length (drop n xs) < length xs"
      using n by simp
    have "concat (buffers n xs) @ staged n xs =
          take n xs @ (concat (buffers n (drop n xs)) @ staged n (drop n xs))"
      unfolding buffers_full [OF n] staged_full [OF n] by simp
    also have "\<dots> = take n xs @ drop n xs"
      unfolding less.hyps [OF shorter] ..
    finally show ?thesis
      by simp
  qed
qed

lemma length_buffers: "b \<in> set (buffers n xs) \<Longrightarrow> length b = n"
proof (induction "length xs" arbitrary: xs rule: less_induct)
  case less
  show ?case
  proof (cases "n = 0 \<or> length xs < n")
    case True
    then show ?thesis
      using less.prems by (simp add: buffers_short)
  next
    case False
    then have n: "0 < n" "n \<le> length xs"
      by simp_all
    have shorter: "length (drop n xs) < length xs"
      using n by simp
    have "b = take n xs \<or> b \<in> set (buffers n (drop n xs))"
      using less.prems unfolding buffers_full [OF n] by simp
    then show ?thesis
      using less.hyps [OF shorter] n by auto
  qed
qed




section \<open>Sessions on the CBC primitive\<close>

lemma webcrypto_aes [simp]: "aes_cbc_encrypt (webcrypto E H) = aes_cbc E"
  by (simp add: webcrypto_def)

lemma encrypt_all_cbc:
  assumes "encrypt_all (webcrypto E H) e w bufs = (None, e', w')" "length (iv e) = 16"
  shows "\<exists>cts. w' = w\<lparr>written := written w @ cts\<rparr> \<and>
               concat cts = cbc_chain (E (aesKey e)) (iv e) (concat bufs) \<and>
               iv e' = last_block (iv e) (concat cts) \<and>
               aesKey e' = aesKey e \<and> length (concat bufs) mod 16 = 0"
  using assms
proof (induction bufs arbitrary: e w)
  case Nil
  then show ?case
    by (intro exI [of _ "[]"]) (simp add: cbc_chain_short last_block_def)
next
  case (Cons b bufs)
  let ?P = "webcrypto E H"
  let ?F = "E (aesKey e)"
  obtain r1 e1 w1 where enc: "encrypt ?P e w b = (r1, e1, w1)"
    by (cases "encrypt ?P e w b") auto
  have r1: "r1 = None"
    using Cons.prems(1) enc by (cases r1) simp_all
  let ?ct = "take (length b) (aes_cbc E (aesKey e) (iv e) b)"
  from encrypt_None [OF enc [unfolded r1] Cons.prems(2)]
  have al: "length b mod 16 = 0"
    and e1: "e1 = e\<lparr>iv := last_block (iv e) ?ct, hmac := update (hmac e) ?ct\<rparr>"
    and w1: "w1 = w\<lparr>written := written w @ [?ct]\<rparr>"
    by simp_all
  have ct: "?ct = cbc_chain ?F (iv e) b"
    using al by (rule aes_cbc_take)
  have lct: "length ?ct mod 16 = 0"
    unfolding ct by (simp add: length_cbc_chain)
  have iv1: "length (iv e1) = 16"
    using e1 length_last_block [OF Cons.prems(2) lct] by simp
  have rest: "encrypt_all ?P e1 w1 bufs = (None, e', w')"
    using Cons.prems(1) enc r1 by simp
  from Cons.IH [OF rest iv1] obtain cts where
    w': "w' = w1\<lparr>written := written w1 @ cts\<rparr>"
    and c': "concat cts = cbc_chain (E (aesKey e1)) (iv e1) (concat bufs)"
    and v': "iv e' = last_block (iv e1) (concat cts)"
    and k': "aesKey e' = aesKey e1"
    and a': "length (concat bufs) mod 16 = 0"
    by auto
  have k1: "aesKey e1 = aesKey e" and v1: "iv e1 = last_block (iv e) (cbc_chain ?F (iv e) b)"
    using e1 ct by simp_all
  have lc: "length (concat cts) mod 16 = 0"
    unfolding c' by (simp add: length_cbc_chain)
  have chain: "?ct @ concat cts = cbc_chain ?F (iv e) (b @ concat bufs)"
    unfolding cbc_chain_append [OF al] c' k1 v1 ct ..
  have last: "iv e' = last_block (iv e) (?ct @ concat cts)"
    unfolding v' v1 ct by (rule last_block_twice [OF lc])
  have al2: "length (concat (b # bufs)) mod 16 = 0"
    using al a' by (simp add: mod_add_eq [symmetric, of "length b"])
  show ?case
    using w' w1 chain last k' k1 al2
    by (intro exI [of _ "?ct # cts"]) simp
qed

lemma session_cbc:
  assumes "session (webcrypto E H) e w bufs tail = (None, e', w')" "length (iv e) = 16"
  shows "\<exists>cts fin tag.
           written w' = written w @ [iv e] @ cts @ [fin, tag] \<and>
           concat cts @ fin = aes_cbc E (aesKey e) (iv e) (concat bufs @ tail)"
proof -
  let ?P = "webcrypto E H"
  obtain e1 w1 e2 w2 where i: "init e w = (None, e1, w1)"
    and a: "encrypt_all ?P e1 w1 bufs = (None, e2, w2)"
    and f: "finish ?P e2 w2 tail = (None, e', w')"
    using session_steps [OF assms(1)] by auto
  have e1: "e1 = e\<lparr>hmac := update (hmac e) (iv e)\<rparr>"
    and w1: "w1 = w\<lparr>written := written w @ [iv e]\<rparr>"
    using init_None [OF i] by simp_all
  have iv1: "length (iv e1) = 16"
    using e1 assms(2) by simp
  obtain cts where w2: "w2 = w1\<lparr>written := written w1 @ cts\<rparr>"
    and c2: "concat cts = cbc_chain (E (aesKey e1)) (iv e1) (concat bufs)"
    and v2: "iv e2 = last_block (iv e1) (concat cts)"
    and k2: "aesKey e2 = aesKey e1"
    and a2: "length (concat bufs) mod 16 = 0"
    using encrypt_all_cbc [OF a iv1] by auto
  let ?fin = "aes_cbc E (aesKey e2) (iv e2) tail"
  have w': "w' = w2\<lparr>written := written w2 @
          [?fin, hmac_sha256 ?P (hmac_key (hmac e2)) (hmac_data (hmac e2) @ ?fin)]\<rparr>"
    using finish_None [OF f] by simp
  have "concat cts @ ?fin = aes_cbc E (aesKey e) (iv e) (concat bufs @ tail)"
    unfolding aes_cbc_append [OF a2] v2 k2 c2 using e1 by simp
  moreover have "written w' = written w @ [iv e] @ cts @
      [?fin, hmac_sha256 ?P (hmac_key (hmac e2)) (hmac_data (hmac e2) @ ?fin)]"
    using w' w2 w1 by simp
  ultimately show ?thesis
    by blast
qed

lemma encrypt_chaining:
  assumes "encrypt P this dst pt = (None, this', dst')" "length (iv this) = 16"
  shows "\<exists>ct. written dst' = written dst @ [ct] \<and> length ct = length pt \<and>
              length (iv this') = 16 \<and>
              iv this' = (if pt = [] then iv this else drop (length ct - 16) ct)"
proof -
  let ?ct = "take (length pt) (aes_cbc_encrypt P (aesKey this) (iv this) pt)"
  from encrypt_None [OF assms]
  have al: "length pt mod 16 = 0"
    and ln: "length (aes_cbc_encrypt P (aesKey this) (iv this) pt) = length pt + 16"
    and e': "this' = this\<lparr>iv := last_block (iv this) ?ct, hmac := update (hmac this) ?ct\<rparr>"
    and w': "dst' = dst\<lparr>written := written dst @ [?ct]\<rparr>"
    by simp_all
  have lct: "length ?ct = length pt"
    using ln by simp
  then have emp: "(?ct = []) = (pt = [])"
    by (metis length_0_conv)
  have "length (iv this') = 16"
    using e' length_last_block [OF assms(2), of ?ct] lct al by simp
  moreover have "iv this' = (if pt = [] then iv this else drop (length ?ct - 16) ?ct)"
    using e' emp by (simp add: last_block_def)
  ultimately show ?thesis
    using w' lct by (intro exI [of _ ?ct]) simp
qed

section \<open>Sessions on a sink that accepts every write\<close>

lemma aligned_plus_block: "length (b::bytes) mod 16 = 0 \<Longrightarrow> 16 * (length b div 16 + 1) = length b + 16"
  using mult_div_mod_eq [of 16 "length b"] by simp

lemma encrypt_accepting:
  assumes "\<forall>k v d. length (aes_cbc_encrypt P k v d) = 16 * (length d div 16 + 1)"
    and "length (iv e) = 16" "length b mod 16 = 0"
    and "\<not> errored w" "\<forall>ws c. accepts w ws c"
  shows "\<exists>e' w'. encrypt P e w b = (None, e', w') \<and> \<not> errored w' \<and>
                  (\<forall>ws c. accepts w' ws c) \<and> length (iv e') = 16"
proof -
  have ln: "length (aes_cbc_encrypt P (aesKey e) (iv e) b) = length b + 16"
    using assms(1) aligned_plus_block [OF assms(3)] by simp
  let ?ct = "take (length b) (aes_cbc_encrypt P (aesKey e) (iv e) b)"
  have wr: "writer_write w ?ct = (None, w\<lparr>written := written w @ [?ct]\<rparr>)"
    using assms(4,5) by (rule writer_write_accepting)
  obtain e' where enc: "encrypt P e w b = (None, e', w\<lparr>written := written w @ [?ct]\<rparr>)"
    unfolding encrypt_aligned [OF assms(2,3) ln] Let_def wr by simp
  have "length (iv e') = 16"
    using encrypt_chaining [OF enc assms(2)] by auto
  then show ?thesis
    using enc assms(4,5) by simp
qed

lemma encrypt_all_accepting:
  assumes "\<forall>k v d. length (aes_cbc_encrypt P k v d) = 16 * (length d div 16 + 1)"
    and "length (iv e) = 16" "\<forall>b \<in> set bufs. length b mod 16 = 0"
    and "\<not> errored w" "\<forall>ws c. accepts w ws c"
  shows "\<exists>e' w'. encrypt_all P e w bufs = (None, e', w') \<and> \<not> errored w' \<and>
                  (\<forall>ws c. accepts w' ws c) \<and> length (iv e') = 16"
  using assms(2-)
proof (induction bufs arbitrary: e w)
  case Nil
  then show ?case
    by simp
next
  case (Cons b bufs)
  have al: "length b mod 16 = 0" and rest: "\<forall>b \<in> set bufs. length b mod 16 = 0"
    using Cons.prems(2) by simp_all
  obtain e1 w1 where enc: "encrypt P e w b = (None, e1, w1)" and ok: "\<not> errored w1"
    "\<forall>ws c. accepts w1 ws c" "length (iv e1) = 16"
    using encrypt_accepting [OF assms(1) Cons.prems(1) al Cons.prems(3,4)] by auto
  from Cons.IH [OF ok(3) rest ok(1,2)] show ?case
    using enc by simp
qed

lemma session_accepting:
  assumes "\<forall>k v d. length (aes_cbc_encrypt P k v d) = 16 * (length d div 16 + 1)"
    and "length (iv e) = 16" "\<forall>b \<in> set bufs. length b mod 16 = 0"
    and "\<not> errored w" "\<forall>ws c. accepts w ws c"
  shows "\<exists>e' w'. session P e w bufs tail = (None, e', w') \<and> \<not> errored w'"
proof -
  have i: "init e w = (None, e\<lparr>hmac := update (hmac e) (iv e)\<rparr>, w\<lparr>written := written w @ [iv e]\<rparr>)"
    using assms(4,5) by (simp add: init_def writer_write_def)
  obtain e2 w2 where a: "encrypt_all P (e\<lparr>hmac := update (hmac e) (iv e)\<rparr>)
        (w\<lparr>written := written w @ [iv e]\<rparr>) bufs = (None, e2, w2)"
    and ok: "\<not> errored w2" "\<forall>ws c. accepts w2 ws c"
    using encrypt_all_accepting [OF assms(1), of "e\<lparr>hmac := update (hmac e) (iv e)\<rparr>" bufs
        "w\<lparr>written := written w @ [iv e]\<rparr>"] assms(2-) by auto
  obtain e3 w3 where f: "finish P e2 w2 tail = (None, e3, w3)" and ok3: "\<not> errored w3"
    using ok by (simp add: finish_def Let_def writer_write_def)
  show ?thesis
    using i a f ok3 by (simp add: session_def)
qed

lemma delivered_map_Inr: "delivered (map Inr cs) = concat cs"
  by (induction cs) simp_all

lemma failure_map_Inr: "failure (map Inr cs) = None"
  by (induction cs) simp_all

lemma concat_aligned:
  "\<forall>b \<in> set bufs. length (b::bytes) mod 16 = 0 \<Longrightarrow> length (concat bufs) mod 16 = 0"
proof (induction bufs)
  case Nil
  then show ?case
    by simp
next
  case (Cons b bufs)
  then have "length b mod 16 = 0" "length (concat bufs) mod 16 = 0"
    by simp_all
  then have "(length b + length (concat bufs)) mod 16 = 0"
    by (simp add: mod_add_eq [symmetric, of "length b"])
  then show ?case
    by simp
qed

lemma blocks_of_split:
  assumes "(s::nat) mod 16 = 0"
  shows "s + 16 * (t div 16 + 1) = 16 * ((s + t) div 16 + 1)"
proof -
  obtain m where s: "s = 16 * m"
    using assms by (auto simp: mod_eq_0_iff_dvd)
  have "(16 * m + t) div 16 = m + t div 16"
    by simp
  then show ?thesis
    unfolding s by simp
qed

lemma nat_aligned:
  assumes "b smod 16 = 0" "0 \<le> b"
  shows "nat b mod 16 = 0"
proof -
  obtain m where b: "b = 16 * m"
    using assms(1) by (auto simp: smod_16_eq_0_iff)
  then have "0 \<le> m"
    using assms(2) by simp
  then have "nat b = 16 * nat m"
    unfolding b by (simp add: nat_mult_distrib)
  then show ?thesis
    by simp
qed

lemma streamEncrypt_accepting:
  assumes "\<forall>k v d. length (aes_cbc_encrypt P k v d) = 16 * (length d div 16 + 1)"
    and "\<forall>k m. length (hmac_sha256 P k m) = 32"
    and "length (iv e) = 16"
    and "or_default bufferSize smod 16 = 0" "0 \<le> or_default bufferSize"
    and "\<not> errored dst" "\<forall>ws c. accepts dst ws c"
  shows "\<exists>e' w' out.
           streamEncrypt P e (map Inr chunks) dst bufferSize = Some (None, e', [], w') \<and>
           w' = dst\<lparr>written := written dst @ out, closes := Suc (closes dst)\<rparr> \<and>
           length (concat out) = 16 + 16 * (length (concat chunks) div 16 + 1) + 32"
proof -
  let ?bs = "or_default bufferSize"
  let ?n = "nat ?bs"
  let ?data = "concat chunks"
  let ?bufs = "buffers ?n ?data"
  let ?tail = "staged ?n ?data"
  have nz: "?bs \<noteq> 0"
    by (simp add: or_default_def split: option.split)
  then have pos: "0 < ?bs"
    using assms(5) by simp
  have n16: "?n mod 16 = 0"
    using assms(4,5) by (rule nat_aligned)
  have al: "\<forall>b \<in> set ?bufs. length b mod 16 = 0"
    using n16 by (auto dest: length_buffers)
  obtain e1 w1 where s: "session P e dst ?bufs ?tail = (None, e1, w1)" and ok: "\<not> errored w1"
    using session_accepting [where tail = ?tail, OF assms(1,3) al assms(6,7)] by auto
  obtain cts fin v where
    w1: "w1 = dst\<lparr>written := written dst @ [iv e] @ cts @
                     [fin, hmac_sha256 P (hmac_key (hmac e))
                             (hmac_data (hmac e) @ iv e @ concat cts @ fin)]\<rparr>"
    and lc: "length (concat cts) = length (concat ?bufs)"
    and fin: "fin = aes_cbc_encrypt P (aesKey e) v ?tail"
    using session_None [OF s assms(3)] by auto
  let ?tag = "hmac_sha256 P (hmac_key (hmac e)) (hmac_data (hmac e) @ iv e @ concat cts @ fin)"
  let ?out = "[iv e] @ cts @ [fin, ?tag]"
  have p: "pumped P e dst ?bs ?data None = (None, e1, w1)"
    using pumped_session [OF pos, of P e dst ?data] s by simp
  obtain rest where run: "streamEncrypt P e (map Inr chunks) dst bufferSize =
        Some (case writer_close w1 of
                (Some err, w') \<Rightarrow> (Some err, e1, rest, w')
              | (None, w') \<Rightarrow> (None, e1, rest, w'))"
    and rest: "rest = []"
    using streamEncrypt_pumped [OF assms(4), of P e "map Inr chunks" dst]
    unfolding delivered_map_Inr failure_map_Inr p by auto
  have cl: "writer_close w1 = (None, w1\<lparr>closes := Suc (closes w1)\<rparr>)"
    using ok by (simp add: writer_close_def)
  have res: "streamEncrypt P e (map Inr chunks) dst bufferSize =
        Some (None, e1, [], dst\<lparr>written := written dst @ ?out, closes := Suc (closes dst)\<rparr>)"
    unfolding run cl rest using w1 by simp
  have split: "length (concat ?bufs) + length ?tail = length ?data"
    using concat_buffers [of ?n ?data] by (metis length_append)
  have sm: "length (concat ?bufs) mod 16 = 0"
    using al by (rule concat_aligned)
  have lfin: "length fin = 16 * (length ?tail div 16 + 1)"
    unfolding fin using assms(1) by simp
  have ltag: "length ?tag = 32"
    using assms(2) by simp
  have "length (concat ?out) = 16 + (length (concat ?bufs) + 16 * (length ?tail div 16 + 1)) + 32"
    using assms(3) lc lfin ltag by simp
  also have "\<dots> = 16 + 16 * ((length (concat ?bufs) + length ?tail) div 16 + 1) + 32"
    unfolding blocks_of_split [OF sm] ..
  finally have len: "length (concat ?out) = 16 + 16 * (length ?data div 16 + 1) + 32"
    unfolding split .
  show ?thesis
    using res len by blast
qed

section \<open>The claims\<close>

text \<open>
  C10. The non-final \<open>encrypt\<close> is atomic on its alignment error: when the plaintext length
  is not a multiple of 16 it throws, and the encrypter (chaining value and MAC accumulator)
  and the writer are exactly as they were before the call. The outcome is the same for every
  platform: the cipher primitive has no part in it.
\<close>

theorem encrypt_alignment_atomic:
  "length pt mod 16 \<noteq> 0 \<Longrightarrow>
   (\<forall>P. encrypt P this dst pt = (Some AlignmentError, this, dst))"
  by (simp add: encrypt_unaligned)

theorem encrypt_alignment_atomic_witness:
  "\<forall>P. encrypt P demo_encrypter fresh_writer [1, 2, 3] =
         (Some AlignmentError, demo_encrypter, fresh_writer)"
  using encrypt_alignment_atomic [of "[1, 2, 3]" demo_encrypter fresh_writer] by simp

text \<open>
  C7. With a \<open>bufferSize\<close> that is not a multiple of 16, \<open>streamEncrypt\<close> fails with
  AlignmentError and nothing else happens: the whole source is still unread, the sink has
  received no write (not even the IV) and no close, and the encrypter is unchanged.
\<close>

theorem streamEncrypt_unaligned_bufferSize:
  "b smod 16 \<noteq> 0 \<Longrightarrow>
   streamEncrypt P e src dst (Some b) = Some (Some AlignmentError, e, src, dst)"
proof -
  assume b: "b smod 16 \<noteq> 0"
  then have "b \<noteq> 0"
    by (auto simp: smod_16_eq_0_iff)
  then have "or_default (Some b) = b"
    by (simp add: or_default_def)
  then show ?thesis
    using b by (simp add: streamEncrypt_def)
qed

theorem streamEncrypt_unaligned_bufferSize_witness:
  "streamEncrypt demo_platform demo_encrypter [Inr [1, 2, 3]] fresh_writer (Some 100) =
     Some (Some AlignmentError, demo_encrypter, [Inr [1, 2, 3]], fresh_writer)"
proof -
  have "(100::int) smod 16 \<noteq> 0"
    by (simp add: smod_16_eq_0_iff)
  then show ?thesis
    by (rule streamEncrypt_unaligned_bufferSize)
qed

text \<open>
  C3. The non-final \<open>encrypt\<close>, on an encrypter with its 16-byte chaining value: a plaintext
  whose length is not a multiple of 16 fails with AlignmentError; otherwise a one-shot output
  of any other length than \<open>length pt + 16\<close> fails with IntegrityError; otherwise, on a sink
  that accepts the write, exactly the first \<open>length pt\<close> bytes of the one-shot output are
  written, which is that output without its last 16 bytes.
\<close>

theorem encrypt_nonfinal_contract:
  assumes "length (iv this) = 16"
  shows "(length pt mod 16 \<noteq> 0 \<longrightarrow> fst (encrypt P this dst pt) = Some AlignmentError) \<and>
    (length pt mod 16 = 0 \<and>
     length (aes_cbc_encrypt P (aesKey this) (iv this) pt) \<noteq> length pt + 16 \<longrightarrow>
       fst (encrypt P this dst pt) = Some IntegrityError) \<and>
    (length pt mod 16 = 0 \<and>
     length (aes_cbc_encrypt P (aesKey this) (iv this) pt) = length pt + 16 \<and>
     \<not> errored dst \<and>
     accepts dst (written dst) (take (length pt) (aes_cbc_encrypt P (aesKey this) (iv this) pt)) \<longrightarrow>
       (\<exists>this'. encrypt P this dst pt =
          (None, this',
           dst\<lparr>written := written dst @
                   [take (length pt) (aes_cbc_encrypt P (aesKey this) (iv this) pt)]\<rparr>)) \<and>
       take (length pt) (aes_cbc_encrypt P (aesKey this) (iv this) pt) @
         drop (length pt) (aes_cbc_encrypt P (aesKey this) (iv this) pt) =
         aes_cbc_encrypt P (aesKey this) (iv this) pt \<and>
       length (drop (length pt) (aes_cbc_encrypt P (aesKey this) (iv this) pt)) = 16)"
proof (intro conjI impI)
  assume "length pt mod 16 \<noteq> 0"
  then show "fst (encrypt P this dst pt) = Some AlignmentError"
    by (simp add: encrypt_unaligned)
next
  assume "length pt mod 16 = 0 \<and>
     length (aes_cbc_encrypt P (aesKey this) (iv this) pt) \<noteq> length pt + 16"
  then show "fst (encrypt P this dst pt) = Some IntegrityError"
    by (simp add: encrypt_bad_length)
next
  assume h: "length pt mod 16 = 0 \<and>
     length (aes_cbc_encrypt P (aesKey this) (iv this) pt) = length pt + 16 \<and>
     \<not> errored dst \<and>
     accepts dst (written dst) (take (length pt) (aes_cbc_encrypt P (aesKey this) (iv this) pt))"
  then have a: "length pt mod 16 = 0"
    and l: "length (aes_cbc_encrypt P (aesKey this) (iv this) pt) = length pt + 16"
    by simp_all
  show "\<exists>this'. encrypt P this dst pt =
          (None, this',
           dst\<lparr>written := written dst @
                   [take (length pt) (aes_cbc_encrypt P (aesKey this) (iv this) pt)]\<rparr>)"
    unfolding encrypt_aligned [OF assms a l] using h by (simp add: Let_def writer_write_def)
  show "take (length pt) (aes_cbc_encrypt P (aesKey this) (iv this) pt) @
         drop (length pt) (aes_cbc_encrypt P (aesKey this) (iv this) pt) =
         aes_cbc_encrypt P (aesKey this) (iv this) pt"
    by simp
  show "length (drop (length pt) (aes_cbc_encrypt P (aesKey this) (iv this) pt)) = 16"
    using l by simp
qed

theorem encrypt_nonfinal_contract_witness:
  "fst (encrypt demo_platform demo_encrypter fresh_writer [1, 2, 3]) = Some AlignmentError \<and>
   (\<exists>this'. encrypt demo_platform demo_encrypter fresh_writer (replicate 16 7) =
      (None, this',
       fresh_writer\<lparr>written := written fresh_writer @
         [take (length (replicate 16 7 :: bytes))
            (aes_cbc_encrypt demo_platform (aesKey demo_encrypter) (iv demo_encrypter)
               (replicate 16 7))]\<rparr>))"
proof -
  have v: "length (iv demo_encrypter) = 16"
    by code_simp
  have u: "length [1, 2, 3 :: byte] mod 16 \<noteq> 0"
    by simp
  have h: "length (replicate 16 7 :: bytes) mod 16 = 0 \<and>
     length (aes_cbc_encrypt demo_platform (aesKey demo_encrypter) (iv demo_encrypter)
               (replicate 16 7)) = length (replicate 16 7 :: bytes) + 16 \<and>
     \<not> errored fresh_writer \<and>
     accepts fresh_writer (written fresh_writer)
       (take (length (replicate 16 7 :: bytes))
          (aes_cbc_encrypt demo_platform (aesKey demo_encrypter) (iv demo_encrypter)
             (replicate 16 7)))"
    by code_simp
  from encrypt_nonfinal_contract [OF v, of "[1, 2, 3]" demo_platform fresh_writer] u
       encrypt_nonfinal_contract [OF v, of "replicate 16 7" demo_platform fresh_writer] h
  show ?thesis
    by blast
qed

text \<open>
  C2. For a fixed platform, encrypter (IV and keys), sink and buffer size, two sources that
  deliver the same bytes in different chunks give the same outcome, the same final encrypter
  and the same writer, hence the same bytes written; running the same input twice gives the
  same output, as \<open>streamEncrypt\<close> is a function of its arguments. Only the unread rest of
  the source can differ.
\<close>

theorem streamEncrypt_chunking_independent:
  assumes "concat cs1 = concat cs2"
  shows "\<exists>r e' w' rest1 rest2.
           streamEncrypt P e (map Inr cs1) dst arg = Some (r, e', rest1, w') \<and>
           streamEncrypt P e (map Inr cs2) dst arg = Some (r, e', rest2, w')"
proof (cases "or_default arg smod 16 = 0")
  case False
  then show ?thesis
    by (simp add: streamEncrypt_def)
next
  case True
  have d: "\<And>cs. delivered (map Inr cs) = concat cs" and f: "\<And>cs. failure (map Inr cs) = None"
  proof -
    fix cs :: "bytes list"
    show "delivered (map Inr cs) = concat cs"
      by (induction cs) simp_all
    show "failure (map Inr cs) = None"
      by (induction cs) simp_all
  qed
  obtain r e1 w1 where p: "pumped P e dst (or_default arg) (concat cs2) None = (r, e1, w1)"
    by (cases "pumped P e dst (or_default arg) (concat cs2) None") auto
  obtain cr w2 where c: "writer_close w1 = (cr, w2)"
    by (cases "writer_close w1") auto
  from streamEncrypt_pumped [OF True, of P e "map Inr cs1" dst]
       streamEncrypt_pumped [OF True, of P e "map Inr cs2" dst]
  show ?thesis
    unfolding d f assms p using c by (cases cr) auto
qed

theorem streamEncrypt_chunking_independent_witness:
  "\<exists>r e' w' rest1 rest2.
     streamEncrypt demo_platform demo_encrypter (map Inr [[1], [2, 3]]) fresh_writer (Some 16)
       = Some (r, e', rest1, w') \<and>
     streamEncrypt demo_platform demo_encrypter (map Inr [[1, 2, 3]]) fresh_writer (Some 16)
       = Some (r, e', rest2, w')"
  by (rule streamEncrypt_chunking_independent) simp



text \<open>
  C5. In every complete session that succeeds (\<open>init\<close>, any number of \<open>encrypt\<close> calls, one
  \<open>finish\<close>) on an encrypter made by \<open>create\<close>, the writes are the IV, then the ciphertext
  chunks, then one last chunk, which is the HMAC under the MAC key of the IV followed by all
  those ciphertext chunks in the order they were written. With a 32-byte tag, the last 32
  bytes written are the HMAC of all the bytes written before them.
\<close>

theorem session_tag:
  assumes "create iv0 hmacKey aesKeyBytes = Inr e"
    and "session P e w bufs tail = (None, e', w')"
    and "\<forall>k m. length (hmac_sha256 P k m) = 32"
  shows "\<exists>ct out.
           written w' = written w @ [iv0] @ ct @ [hmac_sha256 P hmacKey (iv0 @ concat ct)] \<and>
           out = concat (drop (length (written w)) (written w')) \<and>
           take (length out - 32) out = iv0 @ concat ct \<and>
           drop (length out - 32) out = hmac_sha256 P hmacKey (iv0 @ concat ct)"
proof -
  have e: "e = \<lparr>hmac = createHmac hmacKey, iv = iv0, aesKey = aesKeyBytes\<rparr>"
    and v: "length iv0 = 16"
    using create_Inr [OF assms(1)] by simp_all
  have ve: "length (iv e) = 16"
    using e v by simp
  obtain cts fin where
    w': "w' = w\<lparr>written := written w @ [iv e] @ cts @
                     [fin, hmac_sha256 P (hmac_key (hmac e))
                             (hmac_data (hmac e) @ iv e @ concat cts @ fin)]\<rparr>"
    using session_None [OF assms(2) ve] by auto
  let ?ct = "cts @ [fin]"
  let ?tag = "hmac_sha256 P hmacKey (iv0 @ concat ?ct)"
  have wr: "written w' = written w @ [iv0] @ ?ct @ [?tag]"
    using w' e by (simp add: createHmac_def)
  have out: "concat (drop (length (written w)) (written w')) = (iv0 @ concat ?ct) @ ?tag"
    unfolding wr by simp
  have lt: "length ?tag = 32"
    using assms(3) by simp
  have "take (length ((iv0 @ concat ?ct) @ ?tag) - 32) ((iv0 @ concat ?ct) @ ?tag) = iv0 @ concat ?ct"
    and "drop (length ((iv0 @ concat ?ct) @ ?tag) - 32) ((iv0 @ concat ?ct) @ ?tag) = ?tag"
    using lt by simp_all
  then show ?thesis
    using wr out by (intro exI [of _ ?ct]) simp
qed

theorem session_tag_witness:
  "\<exists>w' ct out.
     snd (snd (session demo_platform demo_encrypter fresh_writer [replicate 16 7] [1, 2, 3])) = w' \<and>
     written w' = written fresh_writer @ [replicate 16 2] @ ct @
        [hmac_sha256 demo_platform (replicate 32 1) (replicate 16 2 @ concat ct)] \<and>
     out = concat (drop (length (written fresh_writer)) (written w')) \<and>
     take (length out - 32) out = replicate 16 2 @ concat ct \<and>
     drop (length out - 32) out =
       hmac_sha256 demo_platform (replicate 32 1) (replicate 16 2 @ concat ct)"
proof -
  have c: "create (replicate 16 2) (replicate 32 1) (replicate 32 3) = Inr demo_encrypter"
    by code_simp
  have "fst (session demo_platform demo_encrypter fresh_writer [replicate 16 7] [1, 2, 3]) = None"
    by code_simp
  then obtain e' w' where
    s: "session demo_platform demo_encrypter fresh_writer [replicate 16 7] [1, 2, 3] = (None, e', w')"
    by (cases "session demo_platform demo_encrypter fresh_writer [replicate 16 7] [1, 2, 3]") auto
  have m: "\<forall>k m. length (hmac_sha256 demo_platform k m) = 32"
    by (rule length_demo_mac)
  from session_tag [OF c s m] show ?thesis
    unfolding s by simp
qed

text \<open>
  C4, as stated, fails on a call with an empty plaintext: 0 is a multiple of 16, so
  \<open>encrypt\<close> succeeds; the ciphertext it emits is empty, and the chaining value stays the 16
  bytes it was, which are not the last 16 bytes of an empty ciphertext. (The platform in
  this run is CBC with a stand-in block cipher; the outcome is the same on every platform
  whose one-shot output is 16 bytes longer than an aligned input.)
\<close>

theorem chaining_value_after_empty_encrypt:
  "fst (encrypt demo_platform demo_encrypter fresh_writer []) = None \<and>
   written (snd (snd (encrypt demo_platform demo_encrypter fresh_writer []))) = [[]] \<and>
   iv (fst (snd (encrypt demo_platform demo_encrypter fresh_writer []))) = replicate 16 2 \<and>
   iv (fst (snd (encrypt demo_platform demo_encrypter fresh_writer []))) \<noteq>
     drop (length (last (written (snd (snd (encrypt demo_platform demo_encrypter fresh_writer []))))) - 16)
       (last (written (snd (snd (encrypt demo_platform demo_encrypter fresh_writer [])))))"
  by code_simp

text \<open>
  C4, amended. The chaining value of an encrypter made by \<open>create\<close> is the caller's IV.
  After every successful non-final \<open>encrypt\<close> on a non-empty plaintext (on any platform) it
  is the last 16 bytes of the ciphertext just emitted; a successful call on an empty
  plaintext emits nothing and leaves it unchanged. So in every successful session on the
  CBC primitive the ciphertext chunks emitted by the non-final calls followed by the chunk
  emitted by \<open>finish\<close> are the one-shot CBC encryption, under the caller's IV and key, of the
  concatenated plaintext.
\<close>

theorem chaining_value_invariant:
  assumes "create iv0 hmacKey aesKeyBytes = Inr e"
  shows "iv e = iv0 \<and>
    (length (iv this) = 16 \<and> encrypt P this dst pt = (None, this', dst') \<longrightarrow>
       (\<exists>ct. written dst' = written dst @ [ct] \<and> length ct = length pt \<and>
             length (iv this') = 16 \<and>
             iv this' = (if pt = [] then iv this else drop (length ct - 16) ct))) \<and>
    (session (webcrypto E H) e w bufs tail = (None, e', w') \<longrightarrow>
       (\<exists>cts fin tag.
          written w' = written w @ [iv0] @ cts @ [fin, tag] \<and>
          concat cts @ fin = aes_cbc E aesKeyBytes iv0 (concat bufs @ tail)))"
proof -
  have e: "e = \<lparr>hmac = createHmac hmacKey, iv = iv0, aesKey = aesKeyBytes\<rparr>"
    and v: "length iv0 = 16"
    using create_Inr [OF assms] by simp_all
  have ve: "length (iv e) = 16" and k: "aesKey e = aesKeyBytes" and i: "iv e = iv0"
    using e v by simp_all
  have call: "length (iv this) = 16 \<and> encrypt P this dst pt = (None, this', dst') \<longrightarrow>
       (\<exists>ct. written dst' = written dst @ [ct] \<and> length ct = length pt \<and>
             length (iv this') = 16 \<and>
             iv this' = (if pt = [] then iv this else drop (length ct - 16) ct))"
    using encrypt_chaining [of P this dst pt this' dst'] by blast
  have whole: "session (webcrypto E H) e w bufs tail = (None, e', w') \<longrightarrow>
       (\<exists>cts fin tag.
          written w' = written w @ [iv0] @ cts @ [fin, tag] \<and>
          concat cts @ fin = aes_cbc E aesKeyBytes iv0 (concat bufs @ tail))"
    using session_cbc [of E H e w bufs tail e' w', OF _ ve] unfolding k i by blast
  show ?thesis
    using i call whole by blast
qed

theorem chaining_value_invariant_witness:
  "iv demo_encrypter = replicate 16 2 \<and>
   (\<exists>ct. written (snd (snd (encrypt demo_platform demo_encrypter fresh_writer (replicate 16 7))))
           = written fresh_writer @ [ct] \<and>
         length ct = length (replicate 16 7 :: bytes) \<and>
         length (iv (fst (snd (encrypt demo_platform demo_encrypter fresh_writer
                                 (replicate 16 7))))) = 16 \<and>
         iv (fst (snd (encrypt demo_platform demo_encrypter fresh_writer (replicate 16 7))))
           = drop (length ct - 16) ct) \<and>
   (\<exists>cts fin tag.
      written (snd (snd (session demo_platform demo_encrypter fresh_writer
                           [replicate 16 7] [1, 2, 3])))
        = written fresh_writer @ [replicate 16 2] @ cts @ [fin, tag] \<and>
      concat cts @ fin =
        aes_cbc demo_cipher (replicate 32 3) (replicate 16 2) (concat [replicate 16 7] @ [1, 2, 3]))"
proof -
  have c: "create (replicate 16 2) (replicate 32 1) (replicate 32 3) = Inr demo_encrypter"
    by code_simp
  have v: "length (iv demo_encrypter) = 16"
    by code_simp
  have ne: "(replicate 16 7 :: bytes) \<noteq> []"
    by simp
  have "fst (encrypt demo_platform demo_encrypter fresh_writer (replicate 16 7)) = None"
    by code_simp
  then obtain this' dst' where
    en: "encrypt demo_platform demo_encrypter fresh_writer (replicate 16 7) = (None, this', dst')"
    by (cases "encrypt demo_platform demo_encrypter fresh_writer (replicate 16 7)") auto
  have "fst (session demo_platform demo_encrypter fresh_writer [replicate 16 7] [1, 2, 3]) = None"
    by code_simp
  then obtain e' w' where
    s: "session (webcrypto demo_cipher demo_mac) demo_encrypter fresh_writer
          [replicate 16 7] [1, 2, 3] = (None, e', w')"
    unfolding demo_platform_def
    by (cases "session (webcrypto demo_cipher demo_mac) demo_encrypter fresh_writer
          [replicate 16 7] [1, 2, 3]") auto
  from chaining_value_invariant
         [OF c, of demo_encrypter demo_platform fresh_writer "replicate 16 7" this' dst'
            demo_cipher demo_mac fresh_writer "[replicate 16 7]" "[1, 2, 3]" e' w']
       v en s ne
  show ?thesis
    unfolding demo_platform_def en s by simp
qed



text \<open>
  C9. A \<open>bufferSize\<close> of 0 is replaced by the default, as an omitted one is:
  \<open>streamEncrypt\<close> with 0 is \<open>streamEncrypt\<close> with no buffer size and with 1048576. It
  passes the alignment test and enters the \<^verbatim>\<open>try\<close> block, whose loop starts on a staging
  buffer of 1048576 bytes at offset 0; it returns, with the sink closed once; and on a
  platform with the right output lengths, an encrypter with a 16-byte chaining value, a
  source that does not fail and a sink that accepts every write, it succeeds.
\<close>

theorem streamEncrypt_zero_bufferSize:
  "streamEncrypt P e src dst (Some 0) = streamEncrypt P e src dst None \<and>
   streamEncrypt P e src dst (Some 0) = streamEncrypt P e src dst (Some (1024 * 1024)) \<and>
   or_default (Some 0) = 1048576 \<and> or_default (Some 0) smod 16 = 0 \<and>
   streamEncrypt_try P e src dst (or_default (Some 0)) =
     (case init e dst of
        (Some err, e', w') \<Rightarrow> Some (Some err, e', src, w')
      | (None, e', w') \<Rightarrow>
          (case for_await P
                  \<lparr>encrypter = e', writer = w', plaintext = replicate 1048576 0, offset = 0\<rparr>
                  src of
             None \<Rightarrow> None
           | Some (Some err, st, src') \<Rightarrow> Some (Some err, encrypter st, src', writer st)
           | Some (None, st, src') \<Rightarrow>
               (case finish P (encrypter st) (writer st)
                       (subarray (plaintext st) 0 (offset st)) of
                  (r, e'', w'') \<Rightarrow> Some (r, e'', src', w'')))) \<and>
   (\<exists>r r' e' rest w.
      streamEncrypt_try P e src dst (or_default (Some 0)) = Some (r, e', rest, w) \<and>
      streamEncrypt P e src dst (Some 0) = Some (r', e', rest, w\<lparr>closes := Suc (closes dst)\<rparr>) \<and>
      (r' = r \<or> r' = Some SinkFailure \<and> errored w)) \<and>
   ((\<forall>k v d. length (aes_cbc_encrypt P k v d) = 16 * (length d div 16 + 1)) \<and>
    (\<forall>k m. length (hmac_sha256 P k m) = 32) \<and> length (iv e) = 16 \<and>
    \<not> errored dst \<and> (\<forall>ws c. accepts dst ws c) \<longrightarrow>
      (\<exists>e' w'. streamEncrypt P e (map Inr chunks) dst (Some 0) = Some (None, e', [], w')))"
proof (intro conjI impI)
  have d0: "or_default (Some 0) = 1048576"
    by (simp add: or_default_def)
  have dn: "or_default None = 1048576" and dm: "or_default (Some (1024 * 1024)) = 1048576"
    by (simp_all add: or_default_def)
  show "or_default (Some 0) = 1048576"
    by (rule d0)
  have "(16::int) dvd 1048576"
    by simp
  then show al: "or_default (Some 0) smod 16 = 0"
    unfolding d0 smod_16_eq_0_iff .
  show "streamEncrypt P e src dst (Some 0) = streamEncrypt P e src dst None"
    unfolding streamEncrypt_def d0 dn ..
  show "streamEncrypt P e src dst (Some 0) = streamEncrypt P e src dst (Some (1024 * 1024))"
    unfolding streamEncrypt_def d0 dm ..
  have n: "nat 1048576 = (1048576::nat)" and nn: "\<not> (1048576::int) < 0"
    by simp_all
  show "streamEncrypt_try P e src dst (or_default (Some 0)) =
     (case init e dst of
        (Some err, e', w') \<Rightarrow> Some (Some err, e', src, w')
      | (None, e', w') \<Rightarrow>
          (case for_await P
                  \<lparr>encrypter = e', writer = w', plaintext = replicate 1048576 0, offset = 0\<rparr>
                  src of
             None \<Rightarrow> None
           | Some (Some err, st, src') \<Rightarrow> Some (Some err, encrypter st, src', writer st)
           | Some (None, st, src') \<Rightarrow>
               (case finish P (encrypter st) (writer st)
                       (subarray (plaintext st) 0 (offset st)) of
                  (r, e'', w'') \<Rightarrow> Some (r, e'', src', w''))))"
    unfolding streamEncrypt_try_def d0 n by (simp only: nn if_False)
  obtain r e1 w1 where p: "pumped P e dst (or_default (Some 0)) (delivered src) (failure src) = (r, e1, w1)"
    by (cases "pumped P e dst (or_default (Some 0)) (delivered src) (failure src)") auto
  have cl: "closes w1 = closes dst"
    using pumped_extends [OF p] by (simp add: extends_def)
  have nz: "or_default (Some 0) \<noteq> 0"
    unfolding d0 by simp
  obtain rest where t: "streamEncrypt_try P e src dst (or_default (Some 0)) = Some (r, e1, rest, w1)"
    using streamEncrypt_try_pumped [OF nz, of P e src dst] p by auto
  have "streamEncrypt P e src dst (Some 0) =
      Some (if errored w1 then Some SinkFailure else r, e1, rest, w1\<lparr>closes := Suc (closes dst)\<rparr>)"
    using al cl unfolding streamEncrypt_def Let_def t by (simp add: writer_close_def)
  then show "\<exists>r r' e' rest w.
      streamEncrypt_try P e src dst (or_default (Some 0)) = Some (r, e', rest, w) \<and>
      streamEncrypt P e src dst (Some 0) = Some (r', e', rest, w\<lparr>closes := Suc (closes dst)\<rparr>) \<and>
      (r' = r \<or> r' = Some SinkFailure \<and> errored w)"
    using t by (intro exI [of _ r] exI [of _ "if errored w1 then Some SinkFailure else r"]
                      exI [of _ e1] exI [of _ rest] exI [of _ w1]) simp
  assume h: "(\<forall>k v d. length (aes_cbc_encrypt P k v d) = 16 * (length d div 16 + 1)) \<and>
    (\<forall>k m. length (hmac_sha256 P k m) = 32) \<and> length (iv e) = 16 \<and>
    \<not> errored dst \<and> (\<forall>ws c. accepts dst ws c)"
  have ge: "0 \<le> or_default (Some 0)"
    unfolding d0 by simp
  from h have h1: "\<forall>k v d. length (aes_cbc_encrypt P k v d) = 16 * (length d div 16 + 1)"
    and h2: "\<forall>k m. length (hmac_sha256 P k m) = 32" and h3: "length (iv e) = 16"
    and h4: "\<not> errored dst" and h5: "\<forall>ws c. accepts dst ws c"
    by blast+
  from streamEncrypt_accepting [OF h1 h2 h3 al ge h4 h5, of chunks]
  show "\<exists>e' w'. streamEncrypt P e (map Inr chunks) dst (Some 0) = Some (None, e', [], w')"
    by blast
qed

theorem streamEncrypt_zero_bufferSize_witness:
  "\<exists>e' w'. streamEncrypt demo_platform demo_encrypter (map Inr [[1, 2, 3]]) fresh_writer (Some 0)
             = Some (None, e', [], w')"
proof -
  have h: "(\<forall>k v d. length (aes_cbc_encrypt demo_platform k v d) = 16 * (length d div 16 + 1)) \<and>
    (\<forall>k m. length (hmac_sha256 demo_platform k m) = 32) \<and> length (iv demo_encrypter) = 16 \<and>
    \<not> errored fresh_writer \<and> (\<forall>ws c. accepts fresh_writer ws c)"
    using length_demo_mac
    by (simp add: demo_platform_def length_aes_cbc demo_encrypter_def fresh_writer_def)
  from streamEncrypt_zero_bufferSize
         [of demo_platform demo_encrypter "map Inr [[1, 2, 3]]" fresh_writer "[[1, 2, 3]]"] h
  show ?thesis
    by blast
qed

end
